theory Spec2Isabelle
  imports Complex_Main "HOL-Library.Multiset" "HOL-Library.Log_Nat"
begin

section \<open>Exceptions\<close>

text \<open>
  The two built-in exceptions the library calls of the sources can raise:
  \<^verbatim>\<open>KeyError\<close> (\<^verbatim>\<open>OrderedDict.popitem\<close> on an empty dictionary,
  \<^verbatim>\<open>move_to_end\<close>, \<^verbatim>\<open>[]\<close> and \<^verbatim>\<open>del\<close> on a missing key) and
  \<^verbatim>\<open>ValueError\<close> (\<^verbatim>\<open>min\<close> of an empty list). A function that can raise
  returns \<open>exc + 'a\<close>, with \<open>Inl\<close> for the exception.
\<close>

datatype exc = KeyError | ValueError

section \<open>task1\_lru\_cache.py\<close>

subsection \<open>\<^verbatim>\<open>collections.OrderedDict\<close>\<close>

text \<open>
  An ordered dictionary is the list of its items in iteration order: the head is the
  oldest item (the one \<^verbatim>\<open>popitem(last=False)\<close> removes), the last element the newest.
  A dictionary holds each key once; \<open>od_ok\<close> is that representation invariant.
\<close>

type_synonym ('k, 'v) odict = "('k \<times> 'v) list"

definition od_ok :: "('k, 'v) odict \<Rightarrow> bool" where
  "od_ok od = distinct (map fst od)"

text \<open>\<^verbatim>\<open>key in od\<close>\<close>

definition od_contains :: "'k \<Rightarrow> ('k, 'v) odict \<Rightarrow> bool" where
  "od_contains k od = (k \<in> set (map fst od))"

text \<open>\<^verbatim>\<open>od[key]\<close>\<close>

definition od_getitem :: "('k, 'v) odict \<Rightarrow> 'k \<Rightarrow> exc + 'v" where
  "od_getitem od k = (case map_of od k of None \<Rightarrow> Inl KeyError | Some v \<Rightarrow> Inr v)"

text \<open>\<^verbatim>\<open>od.move_to_end(key)\<close>: the item leaves its place and becomes the last one.\<close>

definition od_move_to_end :: "'k \<Rightarrow> ('k, 'v) odict \<Rightarrow> exc + ('k, 'v) odict" where
  "od_move_to_end k od =
     (case map_of od k of
        None \<Rightarrow> Inl KeyError
      | Some v \<Rightarrow> Inr (filter (\<lambda>e. fst e \<noteq> k) od @ [(k, v)]))"

text \<open>\<^verbatim>\<open>od.popitem(last=False)\<close>: removes and returns the oldest item.\<close>

definition od_popitem_first :: "('k, 'v) odict \<Rightarrow> exc + (('k \<times> 'v) \<times> ('k, 'v) odict)" where
  "od_popitem_first od = (case od of [] \<Rightarrow> Inl KeyError | e # rest \<Rightarrow> Inr (e, rest))"

text \<open>\<^verbatim>\<open>od[key] = value\<close>: a present key keeps its place, a new key goes to the end.\<close>

fun od_setitem :: "'k \<Rightarrow> 'v \<Rightarrow> ('k, 'v) odict \<Rightarrow> ('k, 'v) odict" where
  "od_setitem k v [] = [(k, v)]"
| "od_setitem k v (e # rest) =
     (if fst e = k then (k, v) # rest else e # od_setitem k v rest)"

text \<open>\<^verbatim>\<open>del od[key]\<close>\<close>

definition od_delitem :: "'k \<Rightarrow> ('k, 'v) odict \<Rightarrow> exc + ('k, 'v) odict" where
  "od_delitem k od =
     (if od_contains k od then Inr (filter (\<lambda>e. fst e \<noteq> k) od) else Inl KeyError)"

subsection \<open>class \<^verbatim>\<open>LRUCache\<close>\<close>

text \<open>
  A stored value is any Python object, \<^verbatim>\<open>None\<close> included: values have type
  \<open>'v option\<close>, where \<open>None\<close> is Python's \<^verbatim>\<open>None\<close>.
\<close>

record ('k, 'v) LRUCache =
  capacity :: int
  cache :: "('k, 'v option) odict"

text \<open>\<^verbatim>\<open>__init__\<close> stores its argument and an empty dictionary; it has no raise.\<close>

definition LRUCache_init :: "int \<Rightarrow> exc + ('k, 'v) LRUCache" where
  "LRUCache_init capa = Inr \<lparr>capacity = capa, cache = []\<rparr>"

definition get :: "('k, 'v) LRUCache \<Rightarrow> 'k \<Rightarrow> exc + ('v option \<times> ('k, 'v) LRUCache)" where
  "get c key =
     (if \<not> od_contains key (cache c) then Inr (None, c)
      else case od_move_to_end key (cache c) of
             Inl e \<Rightarrow> Inl e
           | Inr od \<Rightarrow>
               (case od_getitem od key of
                  Inl e \<Rightarrow> Inl e
                | Inr v \<Rightarrow> Inr (v, c\<lparr>cache := od\<rparr>)))"

definition put :: "('k, 'v) LRUCache \<Rightarrow> 'k \<Rightarrow> 'v option \<Rightarrow> exc + ('k, 'v) LRUCache" where
  "put c key val =
     (if od_contains key (cache c) then
        (case od_move_to_end key (cache c) of
           Inl e \<Rightarrow> Inl e
         | Inr od \<Rightarrow> Inr (c\<lparr>cache := od_setitem key val od\<rparr>))
      else if int (length (cache c)) \<ge> capacity c then
        (case od_popitem_first (cache c) of
           Inl e \<Rightarrow> Inl e
         | Inr (_, od) \<Rightarrow> Inr (c\<lparr>cache := od_setitem key val od\<rparr>))
      else Inr (c\<lparr>cache := od_setitem key val (cache c)\<rparr>))"

text \<open>\<^verbatim>\<open>__contains__\<close> and \<^verbatim>\<open>__len__\<close>\<close>

definition contains :: "('k, 'v) LRUCache \<Rightarrow> 'k \<Rightarrow> bool" where
  "contains c key = od_contains key (cache c)"

definition len :: "('k, 'v) LRUCache \<Rightarrow> int" where
  "len c = int (length (cache c))"

text \<open>The loop \<^verbatim>\<open>for key in keys_to_remove: del self.cache[key]\<close>.\<close>

fun del_keys :: "'k list \<Rightarrow> ('k, 'v) odict \<Rightarrow> exc + ('k, 'v) odict" where
  "del_keys [] od = Inr od"
| "del_keys (k # ks) od =
     (case od_delitem k od of Inl e \<Rightarrow> Inl e | Inr od' \<Rightarrow> del_keys ks od')"

definition invalidate :: "('k, 'v) LRUCache \<Rightarrow> ('k \<Rightarrow> bool) \<Rightarrow> exc + ('k, 'v) LRUCache" where
  "invalidate c predicate =
     (let keys_to_remove = filter predicate (map fst (cache c))
      in case del_keys keys_to_remove (cache c) of
           Inl e \<Rightarrow> Inl e
         | Inr od \<Rightarrow> Inr (c\<lparr>cache := od\<rparr>))"

subsection \<open>Range sums\<close>

text \<open>
  The slice \<^verbatim>\<open>array[lo:hi]\<close> of Python: a negative bound counts from the end, and
  both bounds are clamped to the list.
\<close>

definition slice_bound :: "int \<Rightarrow> int \<Rightarrow> int" where
  "slice_bound n i = (if i < 0 then max (i + n) 0 else min i n)"

definition py_slice :: "'a list \<Rightarrow> int \<Rightarrow> int \<Rightarrow> 'a list" where
  "py_slice xs lo hi =
     (let n = int (length xs); s = slice_bound n lo; e = slice_bound n hi
      in take (nat (e - s)) (drop (nat s) xs))"

definition range_sum_no_cache :: "int list \<Rightarrow> int \<Rightarrow> int \<Rightarrow> int" where
  "range_sum_no_cache array L R = sum_list (py_slice array L (R + 1))"

definition range_sum_with_cache ::
  "int list \<Rightarrow> int \<Rightarrow> int \<Rightarrow> (int \<times> int, int) LRUCache \<Rightarrow> exc + (int \<times> (int \<times> int, int) LRUCache)" where
  "range_sum_with_cache array L R c =
     (let key = (L, R) in
      case get c key of
        Inl e \<Rightarrow> Inl e
      | Inr (cached_result, c1) \<Rightarrow>
          (case cached_result of
             Some r \<Rightarrow> Inr (r, c1)
           | None \<Rightarrow>
               (let result = sum_list (py_slice array L (R + 1)) in
                case put c1 key (Some result) of
                  Inl e \<Rightarrow> Inl e
                | Inr c2 \<Rightarrow> Inr (result, c2))))"

text \<open>
  The comprehension of \<^verbatim>\<open>compare_performance\<close>,
  \<^verbatim>\<open>[range_sum_with_cache(array, L, R, cache) for L, R in queries]\<close>: the queries run
  in order on one cache.
\<close>

fun results_with_cache ::
  "int list \<Rightarrow> (int \<times> int) list \<Rightarrow> (int \<times> int, int) LRUCache \<Rightarrow> exc + (int list \<times> (int \<times> int, int) LRUCache)" where
  "results_with_cache array [] c = Inr ([], c)"
| "results_with_cache array ((L, R) # queries) c =
     (case range_sum_with_cache array L R c of
        Inl e \<Rightarrow> Inl e
      | Inr (r, c1) \<Rightarrow>
          (case results_with_cache array queries c1 of
             Inl e \<Rightarrow> Inl e
           | Inr (rs, c2) \<Rightarrow> Inr (r # rs, c2)))"

definition results_no_cache :: "int list \<Rightarrow> (int \<times> int) list \<Rightarrow> int list" where
  "results_no_cache array queries = map (\<lambda>(L, R). range_sum_no_cache array L R) queries"

text \<open>A sequence of calls on one cache.\<close>

datatype ('k, 'v) cache_call = Get 'k | Put 'k "'v option" | Invalidate "'k \<Rightarrow> bool"

fun cache_step :: "('k, 'v) LRUCache \<Rightarrow> ('k, 'v) cache_call \<Rightarrow> exc + ('k, 'v) LRUCache" where
  "cache_step c (Get k) = (case get c k of Inl e \<Rightarrow> Inl e | Inr (_, c') \<Rightarrow> Inr c')"
| "cache_step c (Put k v) = put c k v"
| "cache_step c (Invalidate p) = invalidate c p"

fun cache_run :: "('k, 'v) LRUCache \<Rightarrow> ('k, 'v) cache_call list \<Rightarrow> exc + ('k, 'v) LRUCache" where
  "cache_run c [] = Inr c"
| "cache_run c (x # xs) = (case cache_step c x of Inl e \<Rightarrow> Inl e | Inr c' \<Rightarrow> cache_run c' xs)"

section \<open>Python floats\<close>

text \<open>
  A Python \<^verbatim>\<open>float\<close> is an IEEE 754 binary64 number. A finite one is a real number
  \<open>m * 2 ^ e\<close> with \<open>\<bar>m\<bar> < 2 ^ 53\<close> and \<open>- 1074 \<le> e \<le> 971\<close>. The result of an addition or a
  subtraction is the exact result rounded to the nearest such number, a tie going to the
  even \<open>m\<close>, and an infinity when the rounded result is beyond the largest finite float.
\<close>

datatype pyfloat = Finite real | PosInf | NegInf

text \<open>\<open>2 ^ e\<close> for an integer exponent.\<close>

definition pow2 :: "int \<Rightarrow> real" where
  "pow2 e = (if 0 \<le> e then 2 ^ nat e else 1 / 2 ^ nat (- e))"

text \<open>
  The exponent of the last place of the float nearest to \<open>x\<close>: 52 below the binary
  exponent of \<open>x\<close>, and \<open>- 1074\<close> for the subnormal numbers. The binary exponent is read
  off the bit length of \<open>\<lfloor>\<bar>x\<bar> * 2 ^ 1074\<rfloor>\<close>.
\<close>

definition ulp_exp :: "real \<Rightarrow> int" where
  "ulp_exp x = max (- 1074) (bitlen \<lfloor>\<bar>x\<bar> * 2 ^ 1074\<rfloor> - 1127)"

text \<open>Rounding to the nearest integer, a tie going to the even one.\<close>

definition round_half_even :: "real \<Rightarrow> int" where
  "round_half_even y =
     (let f = \<lfloor>y\<rfloor>; d = y - of_int f
      in if d < 1 / 2 then f else if 1 / 2 < d then f + 1 else if even f then f else f + 1)"

definition double_round :: "real \<Rightarrow> real" where
  "double_round x = (let e = ulp_exp x in of_int (round_half_even (x / pow2 e)) * pow2 e)"

definition to_double :: "real \<Rightarrow> pyfloat" where
  "to_double x =
     (let r = double_round x
      in if 2 ^ 1024 \<le> r then PosInf else if r \<le> - (2 ^ 1024) then NegInf else Finite r)"

text \<open>
  The arithmetic the limiter does. Its operands are finite floats (the timestamps, the
  clock readings and the window), but a sum can overflow before the clock reading is
  subtracted from it; an infinity minus a finite float is that infinity.
\<close>

definition float_add :: "real \<Rightarrow> real \<Rightarrow> pyfloat" where
  "float_add a b = to_double (a + b)"

definition float_sub :: "real \<Rightarrow> real \<Rightarrow> pyfloat" where
  "float_sub a b = to_double (a - b)"

definition float_sub_finite :: "pyfloat \<Rightarrow> real \<Rightarrow> pyfloat" where
  "float_sub_finite a b = (case a of Finite r \<Rightarrow> float_sub r b | PosInf \<Rightarrow> PosInf | NegInf \<Rightarrow> NegInf)"

text \<open>\<^verbatim>\<open>t > c\<close> for a finite float \<open>t\<close>.\<close>

definition float_gt :: "real \<Rightarrow> pyfloat \<Rightarrow> bool" where
  "float_gt t c = (case c of Finite r \<Rightarrow> r < t | PosInf \<Rightarrow> False | NegInf \<Rightarrow> True)"

text \<open>\<^verbatim>\<open>max(0.0, x)\<close>: the second argument when it is greater than the first, else the first.\<close>

definition float_max0 :: "pyfloat \<Rightarrow> pyfloat" where
  "float_max0 x =
     (case x of Finite r \<Rightarrow> if 0 < r then Finite r else Finite 0 | PosInf \<Rightarrow> PosInf | NegInf \<Rightarrow> Finite 0)"

section \<open>task2\_rate\_limiter.py\<close>

text \<open>
  Timestamps are the readings of \<^verbatim>\<open>time.time()\<close>: finite floats, written as the real
  numbers they are. Every method takes the reading of each \<^verbatim>\<open>time.time()\<close> call it
  makes as an argument, in the order of the calls.
\<close>

record SlidingWindowRateLimiter =
  window_size :: real
  max_messages :: int
  user_messages :: "string \<rightharpoonup> real list"

text \<open>\<^verbatim>\<open>__init__\<close> stores its arguments and an empty \<^verbatim>\<open>defaultdict(list)\<close>; it has no raise.\<close>

definition SlidingWindowRateLimiter_init :: "real \<Rightarrow> int \<Rightarrow> exc + SlidingWindowRateLimiter" where
  "SlidingWindowRateLimiter_init ws mm =
     Inr \<lparr>window_size = ws, max_messages = mm, user_messages = Map.empty\<rparr>"

text \<open>
  \<^verbatim>\<open>user_messages[user_id]\<close> on a \<^verbatim>\<open>defaultdict(list)\<close>: a missing key is first
  stored with an empty list.
\<close>

definition dd_getitem :: "('u \<rightharpoonup> 'a list) \<Rightarrow> 'u \<Rightarrow> 'a list \<times> ('u \<rightharpoonup> 'a list)" where
  "dd_getitem m u = (case m u of None \<Rightarrow> ([], m(u \<mapsto> [])) | Some l \<Rightarrow> (l, m))"

definition clean_old_messages :: "SlidingWindowRateLimiter \<Rightarrow> string \<Rightarrow> real \<Rightarrow> SlidingWindowRateLimiter" where
  "clean_old_messages rl user_id current_time =
     (let cutoff_time = float_sub current_time (window_size rl);
          (l, m) = dd_getitem (user_messages rl) user_id
      in rl\<lparr>user_messages := m(user_id \<mapsto> filter (\<lambda>timestamp. float_gt timestamp cutoff_time) l)\<rparr>)"

definition can_send_message :: "SlidingWindowRateLimiter \<Rightarrow> string \<Rightarrow> real \<Rightarrow> bool \<times> SlidingWindowRateLimiter" where
  "can_send_message rl user_id current_time =
     (let rl1 = clean_old_messages rl user_id current_time;
          (l, m) = dd_getitem (user_messages rl1) user_id
      in (int (length l) < max_messages rl1, rl1\<lparr>user_messages := m\<rparr>))"

text \<open>
  \<^verbatim>\<open>record_message\<close> reads the clock twice: inside \<^verbatim>\<open>can_send_message\<close>
  (\<open>check_time\<close>) and again for the timestamp it appends (\<open>current_time\<close>).
\<close>

definition record_message :: "SlidingWindowRateLimiter \<Rightarrow> string \<Rightarrow> real \<Rightarrow> real \<Rightarrow> bool \<times> SlidingWindowRateLimiter" where
  "record_message rl user_id check_time current_time =
     (case can_send_message rl user_id check_time of
        (ok, rl1) \<Rightarrow>
          if \<not> ok then (False, rl1)
          else (let (l, m) = dd_getitem (user_messages rl1) user_id
                in (True, rl1\<lparr>user_messages := m(user_id \<mapsto> l @ [current_time])\<rparr>)))"

text \<open>\<^verbatim>\<open>min(xs)\<close> raises \<^verbatim>\<open>ValueError\<close> on an empty list.\<close>

definition py_min :: "real list \<Rightarrow> exc + real" where
  "py_min xs = (case xs of [] \<Rightarrow> Inl ValueError | x # rest \<Rightarrow> Inr (fold min rest x))"

definition time_until_next_allowed :: "SlidingWindowRateLimiter \<Rightarrow> string \<Rightarrow> real \<Rightarrow> exc + (pyfloat \<times> SlidingWindowRateLimiter)" where
  "time_until_next_allowed rl user_id current_time =
     (let rl1 = clean_old_messages rl user_id current_time;
          (l, m) = dd_getitem (user_messages rl1) user_id;
          rl2 = rl1\<lparr>user_messages := m\<rparr>
      in if int (length l) < max_messages rl2 then Inr (Finite 0, rl2)
         else (let (l', m') = dd_getitem (user_messages rl2) user_id;
                   rl3 = rl2\<lparr>user_messages := m'\<rparr>
               in case py_min l' of
                    Inl e \<Rightarrow> Inl e
                  | Inr oldest_timestamp \<Rightarrow>
                      (let time_remaining =
                             float_sub_finite (float_add oldest_timestamp (window_size rl3)) current_time
                       in Inr (float_max0 time_remaining, rl3))))"

definition get_message_count :: "SlidingWindowRateLimiter \<Rightarrow> string \<Rightarrow> real \<Rightarrow> int \<times> SlidingWindowRateLimiter" where
  "get_message_count rl user_id current_time =
     (let rl1 = clean_old_messages rl user_id current_time;
          (l, m) = dd_getitem (user_messages rl1) user_id
      in (int (length l), rl1\<lparr>user_messages := m\<rparr>))"

text \<open>The timestamps stored for a user; a user never referenced has none.\<close>

definition stored :: "SlidingWindowRateLimiter \<Rightarrow> string \<Rightarrow> real list" where
  "stored rl user_id = (case user_messages rl user_id of None \<Rightarrow> [] | Some l \<Rightarrow> l)"

text \<open>A sequence of calls on one limiter, each with the clock readings it gets.\<close>

datatype limiter_call =
    CanSend string real
  | Record string real real
  | TimeUntil string real
  | GetCount string real

fun limiter_step :: "SlidingWindowRateLimiter \<Rightarrow> limiter_call \<Rightarrow> exc + SlidingWindowRateLimiter" where
  "limiter_step rl (CanSend u t) = Inr (snd (can_send_message rl u t))"
| "limiter_step rl (Record u t1 t2) = Inr (snd (record_message rl u t1 t2))"
| "limiter_step rl (TimeUntil u t) =
     (case time_until_next_allowed rl u t of Inl e \<Rightarrow> Inl e | Inr (_, rl') \<Rightarrow> Inr rl')"
| "limiter_step rl (GetCount u t) = Inr (snd (get_message_count rl u t))"

fun limiter_run :: "SlidingWindowRateLimiter \<Rightarrow> limiter_call list \<Rightarrow> exc + SlidingWindowRateLimiter" where
  "limiter_run rl [] = Inr rl"
| "limiter_run rl (x # xs) =
     (case limiter_step rl x of Inl e \<Rightarrow> Inl e | Inr rl' \<Rightarrow> limiter_run rl' xs)"

fun clock_readings :: "limiter_call \<Rightarrow> real list" where
  "clock_readings (CanSend u t) = [t]"
| "clock_readings (Record u t1 t2) = [t1, t2]"
| "clock_readings (TimeUntil u t) = [t]"
| "clock_readings (GetCount u t) = [t]"

section \<open>Predicates used in the statements\<close>

text \<open>
  The state of a cache that the calls maintain: each key held once, a capacity of at
  least one, and no more entries than the capacity.
\<close>

definition cache_inv :: "('k, 'v) LRUCache \<Rightarrow> bool" where
  "cache_inv c = (od_ok (cache c) \<and> 1 \<le> capacity c \<and> len c \<le> capacity c)"

text \<open>Every cached entry of key \<open>(L, R)\<close> holds the sum of \<^verbatim>\<open>array[L:R+1]\<close>.\<close>

definition sums_cached :: "int list \<Rightarrow> (int \<times> int, int) LRUCache \<Rightarrow> bool" where
  "sums_cached array c =
     list_all (\<lambda>e. snd e = Some (range_sum_no_cache array (fst (fst e)) (snd (fst e)))) (cache c)"

text \<open>The queries the range-sum functions are meant for: \<open>0 \<le> L \<le> R < len(array)\<close>.\<close>

definition valid_queries :: "int list \<Rightarrow> (int \<times> int) list \<Rightarrow> bool" where
  "valid_queries array queries =
     list_all (\<lambda>q. 0 \<le> fst q \<and> fst q \<le> snd q \<and> snd q < int (length array)) queries"

text \<open>
  \<^verbatim>\<open>t <= c\<close> for a finite float \<open>t\<close>, and \<^verbatim>\<open>0.0 <= w\<close>, as the statements about the
  limiter use them.
\<close>

definition float_le :: "real \<Rightarrow> pyfloat \<Rightarrow> bool" where
  "float_le t c = (case c of Finite r \<Rightarrow> t \<le> r | PosInf \<Rightarrow> True | NegInf \<Rightarrow> False)"

definition float_nonneg :: "pyfloat \<Rightarrow> bool" where
  "float_nonneg w = (case w of Finite r \<Rightarrow> 0 \<le> r | PosInf \<Rightarrow> True | NegInf \<Rightarrow> False)"

text \<open>
  The timestamps of a user that a cleaning pass at clock reading \<open>t\<close> retains: those not at
  or below the float \<open>t - window_size\<close>.
\<close>

definition kept_at :: "SlidingWindowRateLimiter \<Rightarrow> string \<Rightarrow> real \<Rightarrow> real list" where
  "kept_at rl u t = filter (\<lambda>x. \<not> float_le x (float_sub t (window_size rl))) (stored rl u)"

section \<open>Ordered dictionary and cache operations, characterised\<close>

lemma map_of_None_contains: "(map_of od k = None) = (\<not> od_contains k od)"
  by (simp add: od_contains_def map_of_eq_None_iff)

lemma od_contains_map_of: "od_contains k od \<Longrightarrow> \<exists>v. map_of od k = Some v"
  using map_of_None_contains[of od k] by auto

lemma od_setitem_new: "\<not> od_contains k od \<Longrightarrow> od_setitem k v od = od @ [(k, v)]"
  by (induction od) (auto simp: od_contains_def)

lemma od_setitem_last: "\<not> od_contains k od \<Longrightarrow> od_setitem k v (od @ [(k, w)]) = od @ [(k, v)]"
  by (induction od) (auto simp: od_contains_def)

lemma filter_not_contains: "\<not> od_contains k (filter (\<lambda>e. fst e \<noteq> k) od)"
  by (auto simp: od_contains_def)

lemma put_present:
  "od_contains k (cache c) \<Longrightarrow>
   put c k v = Inr (c\<lparr>cache := filter (\<lambda>e. fst e \<noteq> k) (cache c) @ [(k, v)]\<rparr>)"
  using od_contains_map_of[of k "cache c"]
  by (auto simp: put_def od_move_to_end_def od_setitem_last filter_not_contains)

lemma put_new_room:
  "\<not> od_contains k (cache c) \<Longrightarrow> int (length (cache c)) < capacity c \<Longrightarrow>
   put c k v = Inr (c\<lparr>cache := cache c @ [(k, v)]\<rparr>)"
  by (simp add: put_def od_setitem_new)

lemma put_new_full:
  "\<not> od_contains k (cache c) \<Longrightarrow> capacity c \<le> int (length (cache c)) \<Longrightarrow> cache c = e # rest \<Longrightarrow>
   put c k v = Inr (c\<lparr>cache := rest @ [(k, v)]\<rparr>)"
  by (cases e) (auto simp: put_def od_popitem_first_def od_setitem_new od_contains_def)

lemma map_of_moved: "map_of (filter (\<lambda>e. fst e \<noteq> k) od @ [(k, v)]) k = Some v"
proof -
  have "map_of (filter (\<lambda>e. fst e \<noteq> k) od) k = None"
    using filter_not_contains[of k od] by (simp add: map_of_None_contains)
  then show ?thesis by (simp add: map_add_def)
qed

lemma get_absent: "\<not> od_contains k (cache c) \<Longrightarrow> get c k = Inr (None, c)"
  by (simp add: get_def)

lemma get_present:
  "map_of (cache c) k = Some v \<Longrightarrow>
   get c k = Inr (v, c\<lparr>cache := filter (\<lambda>e. fst e \<noteq> k) (cache c) @ [(k, v)]\<rparr>)"
  using map_of_None_contains[of "cache c" k]
  by (simp add: get_def od_move_to_end_def od_getitem_def map_of_moved del: map_of_append)

lemma del_keys_filter:
  "od_ok od \<Longrightarrow> distinct ks \<Longrightarrow> set ks \<subseteq> set (map fst od) \<Longrightarrow>
   del_keys ks od = Inr (filter (\<lambda>e. fst e \<notin> set ks) od)"
proof (induction ks arbitrary: od)
  case Nil
  then show ?case by simp
next
  case (Cons k ks)
  let ?od = "filter (\<lambda>e. fst e \<noteq> k) od"
  have ok: "od_ok ?od" using Cons.prems(1) by (simp add: od_ok_def distinct_map_filter)
  have sub: "set ks \<subseteq> set (map fst ?od)"
  proof
    fix x assume x: "x \<in> set ks"
    then have "x \<noteq> k" using Cons.prems(2) by auto
    moreover obtain e where "e \<in> set od" "fst e = x" using x Cons.prems(3) by auto
    ultimately show "x \<in> set (map fst ?od)" by force
  qed
  have "del_keys ks ?od = Inr (filter (\<lambda>e. fst e \<notin> set ks) ?od)"
    using Cons.IH[OF ok _ sub] Cons.prems(2) by simp
  moreover have "od_contains k od" using Cons.prems(3) by (simp add: od_contains_def)
  ultimately show ?case by (simp add: od_delitem_def conj_commute)
qed

lemma invalidate_filter:
  "od_ok (cache c) \<Longrightarrow>
   invalidate c p = Inr (c\<lparr>cache := filter (\<lambda>e. \<not> p (fst e)) (cache c)\<rparr>)"
proof -
  assume ok: "od_ok (cache c)"
  let ?ks = "filter p (map fst (cache c))"
  have "del_keys ?ks (cache c) = Inr (filter (\<lambda>e. fst e \<notin> set ?ks) (cache c))"
    using ok by (intro del_keys_filter) (auto simp: od_ok_def)
  moreover have "filter (\<lambda>e. fst e \<notin> set ?ks) (cache c) = filter (\<lambda>e. \<not> p (fst e)) (cache c)"
    by (rule filter_cong) auto
  ultimately show ?thesis by (simp add: invalidate_def)
qed

section \<open>The calls keep the cache well formed\<close>

lemma od_ok_moved: "od_ok od \<Longrightarrow> od_ok (filter (\<lambda>e. fst e \<noteq> k) od @ [(k, v)])"
  by (auto simp: od_ok_def distinct_map_filter)

lemma od_ok_appended: "od_ok od \<Longrightarrow> \<not> od_contains k od \<Longrightarrow> od_ok (od @ [(k, v)])"
  by (auto simp: od_ok_def od_contains_def)

lemma length_moved:
  "od_contains k od \<Longrightarrow> length (filter (\<lambda>e. fst e \<noteq> k) od @ [(k, v)]) \<le> length od"
proof -
  assume "od_contains k od"
  then obtain e where "e \<in> set od" "\<not> fst e \<noteq> k" by (auto simp: od_contains_def)
  then have "length (filter (\<lambda>e. fst e \<noteq> k) od) < length od"
    by (rule length_filter_less)
  then show ?thesis by simp
qed

lemma put_inv:
  assumes "cache_inv c"
  shows "\<exists>c'. put c k v = Inr c' \<and> cache_inv c' \<and> capacity c' = capacity c
              \<and> set (cache c') \<subseteq> insert (k, v) (set (cache c))"
proof (cases "od_contains k (cache c)")
  case True
  then show ?thesis
    using assms length_moved[OF True, of v] od_ok_moved[of "cache c" k v]
    by (auto simp: put_present cache_inv_def len_def)
next
  case False
  show ?thesis
  proof (cases "int (length (cache c)) < capacity c")
    case True
    then show ?thesis
      using assms False od_ok_appended[of "cache c" k v]
      by (auto simp: put_new_room cache_inv_def len_def)
  next
    case full: False
    then obtain e rest where er: "cache c = e # rest"
      using assms by (cases "cache c") (auto simp: cache_inv_def)
    have "\<not> od_contains k rest" using False er by (auto simp: od_contains_def)
    moreover have "od_ok rest" using assms er by (auto simp: cache_inv_def od_ok_def)
    ultimately have "od_ok (rest @ [(k, v)])" by (simp add: od_ok_appended)
    then show ?thesis
      using assms False full er put_new_full[of k c e rest v]
      by (auto simp: cache_inv_def len_def)
  qed
qed

lemma get_inv:
  assumes "cache_inv c"
  shows "\<exists>v c'. get c k = Inr (v, c') \<and> cache_inv c' \<and> capacity c' = capacity c
              \<and> set (cache c') \<subseteq> set (cache c)
              \<and> (if od_contains k (cache c) then (k, v) \<in> set (cache c) else v = None)"
proof (cases "od_contains k (cache c)")
  case True
  then obtain v where v: "map_of (cache c) k = Some v" using od_contains_map_of by fastforce
  then have mem: "(k, v) \<in> set (cache c)" by (rule map_of_SomeD)
  show ?thesis
    using assms True mem length_moved[OF True, of v] od_ok_moved[of "cache c" k v]
    by (auto simp: get_present[OF v] cache_inv_def len_def)
next
  case False
  then show ?thesis using assms by (simp add: get_absent)
qed

lemma invalidate_inv:
  assumes "cache_inv c"
  shows "\<exists>c'. invalidate c p = Inr c' \<and> cache_inv c' \<and> capacity c' = capacity c
              \<and> set (cache c') \<subseteq> set (cache c)"
proof -
  have ok: "od_ok (cache c)" using assms by (simp add: cache_inv_def)
  have "int (length (filter (\<lambda>e. \<not> p (fst e)) (cache c))) \<le> int (length (cache c))" by simp
  moreover have "int (length (cache c)) \<le> capacity c"
    using assms by (simp add: cache_inv_def len_def)
  ultimately have "int (length (filter (\<lambda>e. \<not> p (fst e)) (cache c))) \<le> capacity c"
    by (rule order_trans)
  then show ?thesis
    using assms by (auto simp: invalidate_filter[OF ok] cache_inv_def len_def od_ok_def distinct_map_filter)
qed

lemma cache_step_inv:
  assumes "cache_inv c"
  shows "\<exists>c'. cache_step c x = Inr c' \<and> cache_inv c' \<and> capacity c' = capacity c"
proof (cases x)
  case (Get k)
  then show ?thesis using get_inv[OF assms, of k] by auto
next
  case (Put k v)
  then show ?thesis using put_inv[OF assms, of k v] by auto
next
  case (Invalidate p)
  then show ?thesis using invalidate_inv[OF assms, of p] by auto
qed

lemma cache_run_inv:
  "cache_inv c \<Longrightarrow> \<exists>c'. cache_run c xs = Inr c' \<and> cache_inv c' \<and> capacity c' = capacity c"
proof (induction xs arbitrary: c)
  case Nil
  then show ?case by simp
next
  case (Cons x xs)
  obtain c1 where c1: "cache_step c x = Inr c1" "cache_inv c1" "capacity c1 = capacity c"
    using cache_step_inv[OF Cons.prems] by blast
  show ?case using Cons.IH[OF c1(2)] c1 by auto
qed

lemma init_inv: "1 \<le> capa \<Longrightarrow> LRUCache_init capa = Inr c \<Longrightarrow> cache_inv c \<and> capacity c = capa"
  by (auto simp: LRUCache_init_def cache_inv_def od_ok_def len_def)

section \<open>The capacity invariant\<close>

text \<open>
  Claim C3. A cache constructed with a capacity of at least one never holds more entries
  than its capacity: after every call of any sequence of \<^verbatim>\<open>get\<close>, \<^verbatim>\<open>put\<close> and
  \<^verbatim>\<open>invalidate\<close> calls (every prefix of the sequence), the call has returned without
  an exception, the capacity is the one given at construction and \<^verbatim>\<open>len\<close> is at most
  the capacity.
\<close>

theorem capacity_invariant:
  assumes "1 \<le> capa" and "LRUCache_init capa = Inr c"
  shows "\<forall>n \<le> length calls. \<exists>c'. cache_run c (take n calls) = Inr c'
            \<and> capacity c' = capa \<and> len c' \<le> capacity c'"
proof (intro allI impI)
  fix n assume "n \<le> length calls"
  have "cache_inv c" "capacity c = capa" using init_inv[OF assms] by auto
  then show "\<exists>c'. cache_run c (take n calls) = Inr c' \<and> capacity c' = capa \<and> len c' \<le> capacity c'"
    using cache_run_inv[of c "take n calls"] by (auto simp: cache_inv_def)
qed

theorem capacity_invariant_witness:
  "(1::int) \<le> 2
   \<and> LRUCache_init 2 = Inr \<lparr>capacity = 2, cache = ([] :: (nat, nat option) odict)\<rparr>
   \<and> (\<exists>c'. cache_run \<lparr>capacity = 2, cache = ([] :: (nat, nat option) odict)\<rparr>
              (take 4 [Put 1 (Some 10), Put 2 (Some 20), Get 1, Put 3 (Some 30), Invalidate (\<lambda>k. k = 1)])
            = Inr c' \<and> capacity c' = 2 \<and> len c' \<le> capacity c')"
proof -
  have a: "(1::int) \<le> 2" by simp
  have b: "LRUCache_init 2 = Inr \<lparr>capacity = 2, cache = ([] :: (nat, nat option) odict)\<rparr>"
    by (simp add: LRUCache_init_def)
  have "(4::nat) \<le> length [Put 1 (Some 10), Put 2 (Some 20), Get 1, Put 3 (Some 30), Invalidate (\<lambda>k::nat. k = 1) :: (nat, nat) cache_call]"
    by simp
  then show ?thesis
    using a b capacity_invariant[OF a b, of "[Put 1 (Some 10), Put 2 (Some 20), Get 1, Put 3 (Some 30), Invalidate (\<lambda>k. k = 1)]"]
    by blast
qed

section \<open>Cached sums stay the sums of the array\<close>

lemma sums_cached_subset:
  "sums_cached array c \<Longrightarrow> set (cache c') \<subseteq> set (cache c) \<Longrightarrow> sums_cached array c'"
  by (auto simp: sums_cached_def list_all_iff)

lemma sums_cached_insert:
  "sums_cached array c \<Longrightarrow>
   set (cache c') \<subseteq> insert ((L, R), Some (range_sum_no_cache array L R)) (set (cache c)) \<Longrightarrow>
   sums_cached array c'"
  by (auto simp: sums_cached_def list_all_iff)

lemma range_sum_with_cache_step:
  assumes inv: "cache_inv c" and sums: "sums_cached array c"
  shows "\<exists>c'. range_sum_with_cache array L R c = Inr (range_sum_no_cache array L R, c')
              \<and> cache_inv c' \<and> sums_cached array c'"
proof -
  obtain v c1 where g: "get c (L, R) = Inr (v, c1)" "cache_inv c1"
      "set (cache c1) \<subseteq> set (cache c)"
      "if od_contains (L, R) (cache c) then ((L, R), v) \<in> set (cache c) else v = None"
    using get_inv[OF inv, of "(L, R)"] by blast
  have sums1: "sums_cached array c1" using sums g(3) by (rule sums_cached_subset)
  show ?thesis
  proof (cases v)
    case None
    obtain c2 where p: "put c1 (L, R) (Some (range_sum_no_cache array L R)) = Inr c2"
        "cache_inv c2"
        "set (cache c2) \<subseteq> insert ((L, R), Some (range_sum_no_cache array L R)) (set (cache c1))"
      using put_inv[OF g(2), of "(L, R)" "Some (range_sum_no_cache array L R)"] by blast
    have "sums_cached array c2" using sums1 p(3) by (rule sums_cached_insert)
    then show ?thesis
      using g(1) None p(1,2) by (simp add: range_sum_with_cache_def range_sum_no_cache_def)
  next
    case (Some r)
    then have "((L, R), Some r) \<in> set (cache c)" using g(4) by (auto split: if_splits)
    then have "r = range_sum_no_cache array L R"
      using sums by (auto simp: sums_cached_def list_all_iff)
    then show ?thesis
      using g(1,2) Some sums1 by (simp add: range_sum_with_cache_def)
  qed
qed

lemma results_with_cache_eq:
  "cache_inv c \<Longrightarrow> sums_cached array c \<Longrightarrow>
   \<exists>c'. results_with_cache array queries c = Inr (results_no_cache array queries, c')
        \<and> cache_inv c' \<and> sums_cached array c'"
proof (induction queries arbitrary: c)
  case Nil
  then show ?case by (simp add: results_no_cache_def)
next
  case (Cons q queries)
  obtain L R where q: "q = (L, R)" by (cases q)
  obtain c1 where s: "range_sum_with_cache array L R c = Inr (range_sum_no_cache array L R, c1)"
      "cache_inv c1" "sums_cached array c1"
    using range_sum_with_cache_step[OF Cons.prems] by blast
  obtain c2 where r: "results_with_cache array queries c1 = Inr (results_no_cache array queries, c2)"
      "cache_inv c2" "sums_cached array c2"
    using Cons.IH[OF s(2,3)] by blast
  show ?case using q s(1) r by (simp add: results_no_cache_def)
qed

text \<open>On a query within the array the slice sum is the sum of the elements \<open>L\<close> to \<open>R\<close>.\<close>

lemma slice_as_nths:
  "m + n \<le> length xs \<Longrightarrow> take n (drop m xs) = map ((!) xs) [m..<m + n]"
  by (rule nth_equalityI) auto

lemma range_sum_no_cache_valid:
  assumes "0 \<le> L" "L \<le> R" "R < int (length array)"
  shows "range_sum_no_cache array L R = (\<Sum>i = nat L..nat R. array ! i)"
proof -
  have n: "nat (R + 1 - L) = Suc (nat R) - nat L" "nat L \<le> nat R" "nat R < length array"
    using assms by auto
  have "py_slice array L (R + 1) = take (nat (R + 1 - L)) (drop (nat L) array)"
    using assms by (simp add: py_slice_def slice_bound_def)
  also have "\<dots> = map ((!) array) [nat L..<nat L + (Suc (nat R) - nat L)]"
    unfolding n(1) using n(2,3) by (intro slice_as_nths) simp
  also have "\<dots> = map ((!) array) [nat L..<Suc (nat R)]"
    using n(2) by simp
  finally have "range_sum_no_cache array L R = sum_list (map ((!) array) [nat L..<Suc (nat R)])"
    by (simp add: range_sum_no_cache_def)
  also have "\<dots> = (\<Sum>i = nat L..<Suc (nat R). array ! i)"
    by (simp only: interv_sum_list_conv_sum_set_nat set_upt)
  finally show ?thesis by (simp add: atLeastLessThanSuc_atLeastAtMost)
qed

section \<open>Cache and no-cache equivalence\<close>

text \<open>
  Claim C1. For a fixed array, a cache constructed with a capacity of at least one and any
  sequence of queries \<open>(L, R)\<close> with \<open>0 \<le> L \<le> R < len(array)\<close>, the list of results of
  \<^verbatim>\<open>range_sum_with_cache\<close>, run in order on that cache, is returned without an exception
  and is the list of results of \<^verbatim>\<open>range_sum_no_cache\<close>: each query gets the same value
  from both.
\<close>

theorem cache_no_cache_equivalence:
  assumes "1 \<le> capa" and "LRUCache_init capa = Inr c" and "valid_queries array queries"
  shows "\<exists>c'. results_with_cache array queries c = Inr (results_no_cache array queries, c')"
proof -
  have "cache_inv c" using init_inv[OF assms(1,2)] by simp
  moreover have "sums_cached array c"
    using assms(2) by (auto simp: LRUCache_init_def sums_cached_def)
  ultimately show ?thesis using results_with_cache_eq[of c array queries] by blast
qed

theorem cache_no_cache_equivalence_witness:
  "(1::int) \<le> 1
   \<and> LRUCache_init 1 = Inr \<lparr>capacity = 1, cache = ([] :: (int \<times> int, int option) odict)\<rparr>
   \<and> valid_queries [3, 1, 4, 1, 5] [(0, 2), (1, 4), (0, 2), (3, 3)]
   \<and> results_no_cache [3, 1, 4, 1, 5] [(0, 2), (1, 4), (0, 2), (3, 3)] = [8, 11, 8, 1]
   \<and> (\<exists>c'. results_with_cache [3, 1, 4, 1, 5] [(0, 2), (1, 4), (0, 2), (3, 3)]
              \<lparr>capacity = 1, cache = []\<rparr> = Inr ([8, 11, 8, 1], c'))"
proof -
  have a: "(1::int) \<le> 1" by simp
  have b: "LRUCache_init 1 = Inr \<lparr>capacity = 1, cache = ([] :: (int \<times> int, int option) odict)\<rparr>"
    by (simp add: LRUCache_init_def)
  have v: "valid_queries [3, 1, 4, 1, 5] [(0, 2), (1, 4), (0, 2), (3, 3)]"
    by (simp add: valid_queries_def)
  have r: "results_no_cache [3, 1, 4, 1, 5] [(0, 2), (1, 4), (0, 2), (3, 3)] = [8, 11, 8, 1]"
    by (simp add: results_no_cache_def range_sum_no_cache_def py_slice_def slice_bound_def)
  have "\<exists>c'. results_with_cache [3, 1, 4, 1, 5] [(0, 2), (1, 4), (0, 2), (3, 3)]
              \<lparr>capacity = 1, cache = []\<rparr> = Inr ([8, 11, 8, 1], c')"
    using cache_no_cache_equivalence[OF a b v] unfolding r .
  with a b v r show ?thesis by blast
qed

section \<open>Least-recently-used order\<close>

lemma put_evicts_oldest:
  assumes new: "\<not> contains c k" and full: "capacity c \<le> len c"
    and ok: "od_ok (cache c)" and oldest: "cache c = (k0, v0) # rest"
  shows "\<exists>c'. put c k v = Inr c' \<and> c' = c\<lparr>cache := rest @ [(k, v)]\<rparr> \<and> len c' = len c
            \<and> contains c' k \<and> \<not> contains c' k0
            \<and> (\<forall>k'. k' \<noteq> k0 \<longrightarrow> contains c' k' = (k' = k \<or> contains c k'))"
proof -
  have "put c k v = Inr (c\<lparr>cache := rest @ [(k, v)]\<rparr>)"
    using new full oldest by (intro put_new_full) (auto simp: contains_def len_def)
  moreover have "k0 \<notin> fst ` set rest" "k \<noteq> k0"
    using ok oldest new by (auto simp: od_ok_def contains_def od_contains_def)
  ultimately show ?thesis
    using oldest by (auto simp: contains_def od_contains_def len_def)
qed

lemma length_without_key:
  "od_ok od \<Longrightarrow> od_contains k od \<Longrightarrow> Suc (length (filter (\<lambda>e. fst e \<noteq> k) od)) = length od"
proof (induction od)
  case Nil
  then show ?case by (simp add: od_contains_def)
next
  case (Cons e od)
  show ?case
  proof (cases "fst e = k")
    case True
    then have "k \<notin> fst ` set od" using Cons.prems(1) by (auto simp: od_ok_def)
    then have "filter (\<lambda>e. fst e \<noteq> k) od = od" by (auto intro: filter_True)
    then show ?thesis using True by simp
  next
    case False
    then show ?thesis using Cons by (auto simp: od_ok_def od_contains_def)
  qed
qed

lemma put_overwrites:
  assumes "contains c k" and "od_ok (cache c)"
  shows "\<exists>c'. put c k v = Inr c' \<and> c' = c\<lparr>cache := filter (\<lambda>e. fst e \<noteq> k) (cache c) @ [(k, v)]\<rparr>
            \<and> map_of (cache c') k = Some v
            \<and> (\<forall>k'. contains c' k' = contains c k') \<and> len c' = len c"
proof -
  let ?od = "filter (\<lambda>e. fst e \<noteq> k) (cache c) @ [(k, v)]"
  have p: "put c k v = Inr (c\<lparr>cache := ?od\<rparr>)"
    using assms(1) by (simp add: put_present contains_def)
  have l: "length ?od = length (cache c)"
    using length_without_key[OF assms(2), of k] assms(1) by (simp add: contains_def)
  have m: "map_of ?od k = Some v" by (rule map_of_moved)
  have "\<forall>k'. od_contains k' ?od = od_contains k' (cache c)"
    using assms(1) by (auto simp: contains_def od_contains_def)
  then show ?thesis using p l m by (simp add: contains_def len_def del: map_of_append)
qed

lemma lru_scenario:
  assumes "a \<noteq> b" "a \<noteq> d" "b \<noteq> d"
  shows "\<exists>c0 c'. LRUCache_init 2 = Inr c0
           \<and> cache_run c0 [Put a va, Put b vb, Get a, Put d vd] = Inr c'
           \<and> c' = \<lparr>capacity = 2, cache = [(a, va), (d, vd)]\<rparr>
           \<and> \<not> contains c' b \<and> contains c' a \<and> contains c' d"
  using assms
  by (simp add: LRUCache_init_def put_def get_def od_contains_def od_move_to_end_def
      od_getitem_def od_popitem_first_def contains_def)

lemma lru_scenario_puts:
  assumes "a \<noteq> b" "a \<noteq> d" "b \<noteq> d"
  shows "\<exists>c0. LRUCache_init 2 = Inr c0
           \<and> cache_run c0 [Put a va, Put b vb] = Inr \<lparr>capacity = 2, cache = [(a, va), (b, vb)]\<rparr>
           \<and> cache_run c0 [Put a va, Put b vb, Put d vd]
               = Inr \<lparr>capacity = 2, cache = [(b, vb), (d, vd)]\<rparr>"
  using assms
  by (simp add: LRUCache_init_def put_def od_contains_def od_popitem_first_def)

text \<open>
  Claim C4. The dictionary holds the entries from the least to the most recently used.
  (1) A \<^verbatim>\<open>put\<close> of a new key into a full cache, whose oldest entry is
  \<open>(k0, v0)\<close>, removes exactly that entry and then appends the new one as the most recent:
  \<open>k0\<close> is gone, every other key stays, the new key is present and the size is
  unchanged. (2) A \<^verbatim>\<open>get\<close> of a present key returns its value and moves the entry to
  the most recent place. (3) With capacity 2 and distinct keys \<open>a\<close>, \<open>b\<close>, \<open>d\<close>, after
  \<^verbatim>\<open>put(a)\<close>, \<^verbatim>\<open>put(b)\<close>, \<^verbatim>\<open>get(a)\<close>, \<^verbatim>\<open>put(d)\<close> the key \<open>b\<close> is absent and
  \<open>a\<close> and \<open>d\<close> are present. (4) A \<^verbatim>\<open>put\<close> of a present key stores the new value,
  moves the entry to the most recent place and leaves the set of keys and the size as
  they were. (5) A \<^verbatim>\<open>put\<close> of a new key into a cache with room appends it as the most
  recent entry and removes nothing. (6) A \<^verbatim>\<open>get\<close> of an absent key returns
  \<^verbatim>\<open>None\<close> and changes nothing. (7) With capacity 2 and distinct keys, after
  \<^verbatim>\<open>put(a)\<close>, \<^verbatim>\<open>put(b)\<close> the entries are \<open>a\<close>, \<open>b\<close> in this order, and a following
  \<^verbatim>\<open>put(d)\<close> evicts \<open>a\<close>, the key put first, and leaves \<open>b\<close>, \<open>d\<close>.
\<close>

theorem lru_order:
  "(\<not> contains c1 k1 \<and> capacity c1 \<le> len c1 \<and> od_ok (cache c1) \<and> cache c1 = (k0, v0) # rest \<longrightarrow>
      (\<exists>c'. put c1 k1 v1 = Inr c' \<and> c' = c1\<lparr>cache := rest @ [(k1, v1)]\<rparr> \<and> len c' = len c1
            \<and> contains c' k1 \<and> \<not> contains c' k0
            \<and> (\<forall>k'. k' \<noteq> k0 \<longrightarrow> contains c' k' = (k' = k1 \<or> contains c1 k'))))
   \<and> (contains c2 k2 \<longrightarrow>
      (\<exists>v. map_of (cache c2) k2 = Some v
          \<and> get c2 k2 = Inr (v, c2\<lparr>cache := filter (\<lambda>e. fst e \<noteq> k2) (cache c2) @ [(k2, v)]\<rparr>)))
   \<and> (a \<noteq> b \<and> a \<noteq> d \<and> b \<noteq> d \<longrightarrow>
      (\<exists>c0 c'. LRUCache_init 2 = Inr c0
           \<and> cache_run c0 [Put a va, Put b vb, Get a, Put d vd] = Inr c'
           \<and> c' = \<lparr>capacity = 2, cache = [(a, va), (d, vd)]\<rparr>
           \<and> \<not> contains c' b \<and> contains c' a \<and> contains c' d))
   \<and> (contains c3 k3 \<and> od_ok (cache c3) \<longrightarrow>
      (\<exists>c'. put c3 k3 v3 = Inr c'
           \<and> c' = c3\<lparr>cache := filter (\<lambda>e. fst e \<noteq> k3) (cache c3) @ [(k3, v3)]\<rparr>
           \<and> map_of (cache c') k3 = Some v3
           \<and> (\<forall>k'. contains c' k' = contains c3 k') \<and> len c' = len c3))
   \<and> (\<not> contains c4 k4 \<and> len c4 < capacity c4 \<longrightarrow>
      put c4 k4 v4 = Inr (c4\<lparr>cache := cache c4 @ [(k4, v4)]\<rparr>))
   \<and> (\<not> contains c5 k5 \<longrightarrow> get c5 k5 = Inr (None, c5))
   \<and> (a' \<noteq> b' \<and> a' \<noteq> d' \<and> b' \<noteq> d' \<longrightarrow>
      (\<exists>c0. LRUCache_init 2 = Inr c0
           \<and> cache_run c0 [Put a' va', Put b' vb']
               = Inr \<lparr>capacity = 2, cache = [(a', va'), (b', vb')]\<rparr>
           \<and> cache_run c0 [Put a' va', Put b' vb', Put d' vd']
               = Inr \<lparr>capacity = 2, cache = [(b', vb'), (d', vd')]\<rparr>))"
proof (intro conjI impI)
  assume "\<not> contains c1 k1 \<and> capacity c1 \<le> len c1 \<and> od_ok (cache c1) \<and> cache c1 = (k0, v0) # rest"
  then show "\<exists>c'. put c1 k1 v1 = Inr c' \<and> c' = c1\<lparr>cache := rest @ [(k1, v1)]\<rparr> \<and> len c' = len c1
            \<and> contains c' k1 \<and> \<not> contains c' k0
            \<and> (\<forall>k'. k' \<noteq> k0 \<longrightarrow> contains c' k' = (k' = k1 \<or> contains c1 k'))"
    using put_evicts_oldest[of c1 k1 k0 v0 rest v1] by blast
next
  assume "contains c2 k2"
  then obtain v where v: "map_of (cache c2) k2 = Some v"
    using od_contains_map_of[of k2 "cache c2"] by (auto simp: contains_def)
  show "\<exists>v. map_of (cache c2) k2 = Some v
          \<and> get c2 k2 = Inr (v, c2\<lparr>cache := filter (\<lambda>e. fst e \<noteq> k2) (cache c2) @ [(k2, v)]\<rparr>)"
    using v get_present[OF v] by blast
next
  assume "a \<noteq> b \<and> a \<noteq> d \<and> b \<noteq> d"
  then show "\<exists>c0 c'. LRUCache_init 2 = Inr c0
           \<and> cache_run c0 [Put a va, Put b vb, Get a, Put d vd] = Inr c'
           \<and> c' = \<lparr>capacity = 2, cache = [(a, va), (d, vd)]\<rparr>
           \<and> \<not> contains c' b \<and> contains c' a \<and> contains c' d"
    using lru_scenario[of a b d va vb vd] by blast
next
  assume "contains c3 k3 \<and> od_ok (cache c3)"
  then show "\<exists>c'. put c3 k3 v3 = Inr c'
           \<and> c' = c3\<lparr>cache := filter (\<lambda>e. fst e \<noteq> k3) (cache c3) @ [(k3, v3)]\<rparr>
           \<and> map_of (cache c') k3 = Some v3
           \<and> (\<forall>k'. contains c' k' = contains c3 k') \<and> len c' = len c3"
    using put_overwrites[of c3 k3 v3] by blast
next
  assume "\<not> contains c4 k4 \<and> len c4 < capacity c4"
  then show "put c4 k4 v4 = Inr (c4\<lparr>cache := cache c4 @ [(k4, v4)]\<rparr>)"
    by (intro put_new_room) (simp_all add: contains_def len_def)
next
  assume "\<not> contains c5 k5"
  then show "get c5 k5 = Inr (None, c5)"
    by (simp add: get_absent contains_def)
next
  assume "a' \<noteq> b' \<and> a' \<noteq> d' \<and> b' \<noteq> d'"
  then show "\<exists>c0. LRUCache_init 2 = Inr c0
           \<and> cache_run c0 [Put a' va', Put b' vb']
               = Inr \<lparr>capacity = 2, cache = [(a', va'), (b', vb')]\<rparr>
           \<and> cache_run c0 [Put a' va', Put b' vb', Put d' vd']
               = Inr \<lparr>capacity = 2, cache = [(b', vb'), (d', vd')]\<rparr>"
    using lru_scenario_puts[of a' b' d' va' vb' vd'] by blast
qed

theorem lru_order_witness:
  "(\<not> contains \<lparr>capacity = 2, cache = [(1::nat, Some (10::nat)), (2, Some 20)]\<rparr> 3
    \<and> capacity \<lparr>capacity = 2, cache = [(1::nat, Some (10::nat)), (2, Some 20)]\<rparr>
        \<le> len \<lparr>capacity = 2, cache = [(1::nat, Some (10::nat)), (2, Some 20)]\<rparr>
    \<and> od_ok [(1::nat, Some (10::nat)), (2, Some 20)]
    \<and> put \<lparr>capacity = 2, cache = [(1::nat, Some (10::nat)), (2, Some 20)]\<rparr> 3 (Some 30)
        = Inr \<lparr>capacity = 2, cache = [(2, Some 20), (3, Some 30)]\<rparr>)
   \<and> (contains \<lparr>capacity = 2, cache = [(1::nat, Some (10::nat)), (2, Some 20)]\<rparr> 1
    \<and> get \<lparr>capacity = 2, cache = [(1::nat, Some (10::nat)), (2, Some 20)]\<rparr> 1
        = Inr (Some 10, \<lparr>capacity = 2, cache = [(2, Some 20), (1, Some 10)]\<rparr>))
   \<and> ((1::nat) \<noteq> 2 \<and> (1::nat) \<noteq> 3 \<and> (2::nat) \<noteq> 3
    \<and> cache_run \<lparr>capacity = 2, cache = []\<rparr>
         [Put (1::nat) (Some (10::nat)), Put 2 (Some 20), Get 1, Put 3 (Some 30)]
        = Inr \<lparr>capacity = 2, cache = [(1, Some 10), (3, Some 30)]\<rparr>)
   \<and> (contains \<lparr>capacity = 2, cache = [(1::nat, Some (10::nat)), (2, Some 20)]\<rparr> 1
    \<and> put \<lparr>capacity = 2, cache = [(1::nat, Some (10::nat)), (2, Some 20)]\<rparr> 1 (Some 11)
        = Inr \<lparr>capacity = 2, cache = [(2, Some 20), (1, Some 11)]\<rparr>)
   \<and> (\<not> contains \<lparr>capacity = 3, cache = [(1::nat, Some (10::nat)), (2, Some 20)]\<rparr> 3
    \<and> len \<lparr>capacity = 3, cache = [(1::nat, Some (10::nat)), (2, Some 20)]\<rparr>
        < capacity \<lparr>capacity = 3, cache = [(1::nat, Some (10::nat)), (2, Some 20)]\<rparr>
    \<and> put \<lparr>capacity = 3, cache = [(1::nat, Some (10::nat)), (2, Some 20)]\<rparr> 3 (Some 30)
        = Inr \<lparr>capacity = 3, cache = [(1, Some 10), (2, Some 20), (3, Some 30)]\<rparr>)
   \<and> (\<not> contains \<lparr>capacity = 2, cache = [(1::nat, Some (10::nat)), (2, Some 20)]\<rparr> 3
    \<and> get \<lparr>capacity = 2, cache = [(1::nat, Some (10::nat)), (2, Some 20)]\<rparr> 3
        = Inr (None, \<lparr>capacity = 2, cache = [(1, Some 10), (2, Some 20)]\<rparr>))
   \<and> (cache_run \<lparr>capacity = 2, cache = []\<rparr> [Put (1::nat) (Some (10::nat)), Put 2 (Some 20)]
        = Inr \<lparr>capacity = 2, cache = [(1, Some 10), (2, Some 20)]\<rparr>
    \<and> cache_run \<lparr>capacity = 2, cache = []\<rparr>
         [Put (1::nat) (Some (10::nat)), Put 2 (Some 20), Put 3 (Some 30)]
        = Inr \<lparr>capacity = 2, cache = [(2, Some 20), (3, Some 30)]\<rparr>)"
proof -
  let ?c = "\<lparr>capacity = 2, cache = [(1::nat, Some (10::nat)), (2, Some 20)]\<rparr>"
  let ?r = "\<lparr>capacity = 3, cache = [(1::nat, Some (10::nat)), (2, Some 20)]\<rparr>"
  have h1: "\<not> contains ?c 3 \<and> capacity ?c \<le> len ?c \<and> od_ok (cache ?c)
            \<and> cache ?c = (1, Some 10) # [(2, Some 20)]"
    by (simp add: contains_def od_contains_def len_def od_ok_def)
  have h2: "contains ?c 1" by (simp add: contains_def od_contains_def)
  have h3: "(1::nat) \<noteq> 2 \<and> (1::nat) \<noteq> 3 \<and> (2::nat) \<noteq> 3" by simp
  have h4: "contains ?c 1 \<and> od_ok (cache ?c)"
    by (simp add: contains_def od_contains_def od_ok_def)
  have h5: "\<not> contains ?r 3 \<and> len ?r < capacity ?r"
    by (simp add: contains_def od_contains_def len_def)
  have h6: "\<not> contains ?c 3" by (simp add: contains_def od_contains_def)
  note t = lru_order[where ?c1.0 = ?c and ?k1.0 = 3 and ?k0.0 = 1 and ?v0.0 = "Some 10"
      and rest = "[(2, Some 20)]" and ?v1.0 = "Some 30" and ?c2.0 = ?c and ?k2.0 = 1
      and a = "1::nat" and b = 2 and d = 3 and va = "Some (10::nat)" and vb = "Some 20" and vd = "Some 30"
      and ?c3.0 = ?c and ?k3.0 = 1 and ?v3.0 = "Some 11"
      and ?c4.0 = ?r and ?k4.0 = 3 and ?v4.0 = "Some 30" and ?c5.0 = ?c and ?k5.0 = 3
      and a' = "1::nat" and b' = 2 and d' = 3 and va' = "Some (10::nat)" and vb' = "Some 20"
      and vd' = "Some 30"]
  have r1: "put ?c 3 (Some 30) = Inr \<lparr>capacity = 2, cache = [(2, Some 20), (3, Some 30)]\<rparr>"
    using t h1 by auto
  have r2: "get ?c 1 = Inr (Some 10, \<lparr>capacity = 2, cache = [(2, Some 20), (1, Some 10)]\<rparr>)"
    using t h2 by auto
  have r3: "cache_run \<lparr>capacity = 2, cache = []\<rparr>
         [Put (1::nat) (Some (10::nat)), Put 2 (Some 20), Get 1, Put 3 (Some 30)]
        = Inr \<lparr>capacity = 2, cache = [(1, Some 10), (3, Some 30)]\<rparr>"
    using t h3 by (auto simp: LRUCache_init_def)
  have r4: "put ?c 1 (Some 11) = Inr \<lparr>capacity = 2, cache = [(2, Some 20), (1, Some 11)]\<rparr>"
    using t h4 by auto
  have r5: "put ?r 3 (Some 30) = Inr \<lparr>capacity = 3, cache = [(1, Some 10), (2, Some 20), (3, Some 30)]\<rparr>"
    using t h5 by auto
  have r6: "get ?c 3 = Inr (None, ?c)"
    using t h6 by blast
  have r7: "cache_run \<lparr>capacity = 2, cache = []\<rparr> [Put (1::nat) (Some (10::nat)), Put 2 (Some 20)]
        = Inr \<lparr>capacity = 2, cache = [(1, Some 10), (2, Some 20)]\<rparr>
    \<and> cache_run \<lparr>capacity = 2, cache = []\<rparr>
         [Put (1::nat) (Some (10::nat)), Put 2 (Some 20), Put 3 (Some 30)]
        = Inr \<lparr>capacity = 2, cache = [(2, Some 20), (3, Some 30)]\<rparr>"
    using t h3 by (auto simp: LRUCache_init_def)
  show ?thesis using h1 h2 h3 h5 h6 r1 r2 r3 r4 r5 r6 r7 by simp
qed

section \<open>Invalidation\<close>

lemma del_keys_any_order:
  assumes ok: "od_ok od" and perm: "mset ks = mset (filter p (map fst od))"
  shows "del_keys ks od = Inr (filter (\<lambda>e. \<not> p (fst e)) od)"
proof -
  have d: "distinct ks"
    using ok perm by (metis distinct_filter mset_eq_imp_distinct_iff od_ok_def)
  have s: "set ks = set (filter p (map fst od))" using perm by (rule mset_eq_setD)
  then have "set ks \<subseteq> set (map fst od)" by auto
  then have "del_keys ks od = Inr (filter (\<lambda>e. fst e \<notin> set ks) od)"
    using ok d by (intro del_keys_filter)
  moreover have "filter (\<lambda>e. fst e \<notin> set ks) od = filter (\<lambda>e. \<not> p (fst e)) od"
    unfolding s by (rule filter_cong) auto
  ultimately show ?thesis by simp
qed

lemma map_of_filter_keys:
  "P k \<Longrightarrow> map_of (filter (\<lambda>e. P (fst e)) od) k = map_of od k"
  by (induction od) auto

text \<open>
  Claim C5. On a cache that holds each key once, \<^verbatim>\<open>invalidate(p)\<close> returns without an
  exception and leaves the entries whose key does not satisfy \<open>p\<close>, in their order:
  a key that was present and satisfies \<open>p\<close> is absent; a key that does not satisfy
  \<open>p\<close> is present exactly if it was, with the value it had; the surviving keys are the
  old keys without those satisfying \<open>p\<close>, in the old recency order; and deleting
  the keys to remove in any other order (any permutation \<open>ks\<close> of them, as another
  traversal order of the dictionary would give) produces the same dictionary.
\<close>

theorem invalidate_correct:
  assumes "od_ok (cache c)"
  shows "\<exists>c'. invalidate c p = Inr c'
           \<and> capacity c' = capacity c
           \<and> (\<forall>k. p k \<longrightarrow> \<not> contains c' k)
           \<and> (\<forall>k. \<not> p k \<longrightarrow> contains c' k = contains c k
                    \<and> map_of (cache c') k = map_of (cache c) k)
           \<and> map fst (cache c') = filter (\<lambda>k. \<not> p k) (map fst (cache c))
           \<and> cache c' = filter (\<lambda>e. \<not> p (fst e)) (cache c)
           \<and> (\<forall>ks. mset ks = mset (filter p (map fst (cache c))) \<longrightarrow>
                  del_keys ks (cache c) = Inr (cache c'))"
proof -
  let ?od = "filter (\<lambda>e. \<not> p (fst e)) (cache c)"
  have i: "invalidate c p = Inr (c\<lparr>cache := ?od\<rparr>)"
    using assms by (rule invalidate_filter)
  have a: "\<forall>k. p k \<longrightarrow> \<not> od_contains k ?od" by (auto simp: od_contains_def)
  have b: "\<forall>k. \<not> p k \<longrightarrow> od_contains k ?od = od_contains k (cache c)"
    by (force simp: od_contains_def)
  have m: "\<forall>k. \<not> p k \<longrightarrow> map_of ?od k = map_of (cache c) k"
    using map_of_filter_keys[of "\<lambda>k. \<not> p k"] by blast
  have o: "map fst ?od = filter (\<lambda>k. \<not> p k) (map fst (cache c))"
    by (simp add: filter_map comp_def)
  have t: "\<forall>ks. mset ks = mset (filter p (map fst (cache c))) \<longrightarrow> del_keys ks (cache c) = Inr ?od"
    using del_keys_any_order[OF assms] by blast
  show ?thesis using i a b m o t by (simp add: contains_def)
qed

theorem invalidate_correct_witness:
  "od_ok (cache \<lparr>capacity = 3, cache = [((0::int, 2::int), Some (6::int)), ((3, 4), Some 9), ((2, 4), Some 12)]\<rparr>)
   \<and> (\<exists>c'. invalidate \<lparr>capacity = 3, cache = [((0::int, 2::int), Some (6::int)), ((3, 4), Some 9), ((2, 4), Some 12)]\<rparr>
               (\<lambda>key. fst key \<le> 2 \<and> 2 \<le> snd key) = Inr c'
          \<and> cache c' = [((3, 4), Some 9)]
          \<and> del_keys [(2, 4), (0, 2)] [((0::int, 2::int), Some (6::int)), ((3, 4), Some 9), ((2, 4), Some 12)]
              = Inr (cache c'))"
proof -
  let ?c = "\<lparr>capacity = 3, cache = [((0::int, 2::int), Some (6::int)), ((3, 4), Some 9), ((2, 4), Some 12)]\<rparr>"
  let ?p = "\<lambda>key :: int \<times> int. fst key \<le> 2 \<and> 2 \<le> snd key"
  have h: "od_ok (cache ?c)" by (simp add: od_ok_def)
  have m: "mset [(2, 4), (0, 2)] = mset (filter ?p (map fst (cache ?c)))" by simp
  obtain c' where c': "invalidate ?c ?p = Inr c'"
      "cache c' = filter (\<lambda>e. \<not> ?p (fst e)) (cache ?c)"
      "\<forall>ks. mset ks = mset (filter ?p (map fst (cache ?c))) \<longrightarrow> del_keys ks (cache ?c) = Inr (cache c')"
    using invalidate_correct[OF h, of ?p] by blast
  have "del_keys [(2, 4), (0, 2)] (cache ?c) = Inr (cache c')" using c'(3) m by blast
  moreover have "cache c' = [((3, 4), Some 9)]" using c'(2) by simp
  ultimately show ?thesis using h c'(1) by auto
qed

section \<open>A stored \<^verbatim>\<open>None\<close>\<close>

lemma put_raises_iff: "(put c k v = Inl KeyError) = (capacity c \<le> 0 \<and> cache c = [])"
proof (cases "od_contains k (cache c)")
  case True
  then have "cache c \<noteq> []" by (auto simp: od_contains_def)
  then show ?thesis using True by (simp add: put_present)
next
  case False
  show ?thesis
  proof (cases "cache c")
    case Nil
    then show ?thesis using False by (auto simp: put_def od_popitem_first_def)
  next
    case (Cons e rest)
    then show ?thesis
      using False put_new_full[of k c e rest v] put_new_room[of k c v]
      by (cases "capacity c \<le> int (length (cache c))") auto
  qed
qed

lemma put_as_last:
  assumes "1 \<le> capacity c \<or> cache c \<noteq> []"
  shows "\<exists>older. put c k v = Inr (c\<lparr>cache := older @ [(k, v)]\<rparr>) \<and> \<not> od_contains k older"
proof (cases "od_contains k (cache c)")
  case True
  then show ?thesis using put_present[OF True, of v] filter_not_contains[of k "cache c"] by blast
next
  case False
  show ?thesis
  proof (cases "cache c")
    case Nil
    then have "put c k v = Inr (c\<lparr>cache := [] @ [(k, v)]\<rparr>)"
      using assms False put_new_room[of k c v] by auto
    moreover have "\<not> od_contains k []" by (simp add: od_contains_def)
    ultimately show ?thesis by blast
  next
    case (Cons e rest)
    then have r: "\<not> od_contains k rest" using False by (auto simp: od_contains_def)
    show ?thesis
    proof (cases "capacity c \<le> int (length (cache c))")
      case True
      then show ?thesis using r False Cons put_new_full[of k c e rest v] by blast
    next
      case room: False
      then show ?thesis using False put_new_room[of k c v] by auto
    qed
  qed
qed

lemma filter_keeps_others: "\<not> od_contains k od \<Longrightarrow> filter (\<lambda>e. fst e \<noteq> k) od = od"
  by (auto simp: od_contains_def intro: filter_True)

lemma get_of_last:
  assumes "cache c = older @ [(k, v)]" and "\<not> od_contains k older"
  shows "get c k = Inr (v, c)"
proof -
  have f: "filter (\<lambda>e. fst e \<noteq> k) (cache c) = older"
    using assms by (simp add: filter_keeps_others)
  have "map_of (cache c) k = Some v"
    using map_of_moved[of k older v] assms by (simp add: filter_keeps_others del: map_of_append)
  from get_present[OF this] show ?thesis using f assms(1) by simp
qed

lemma stored_None_present:
  assumes "1 \<le> capacity c \<or> cache c \<noteq> []"
  shows "\<exists>c'. put c k None = Inr c' \<and> contains c' k
           \<and> len c' = 1 + int (length (filter (\<lambda>e. fst e \<noteq> k) (cache c')))
           \<and> get c' k = Inr (None, c')"
proof -
  obtain older where o: "put c k None = Inr (c\<lparr>cache := older @ [(k, None)]\<rparr>)"
      "\<not> od_contains k older"
    using put_as_last[OF assms] by blast
  let ?c = "c\<lparr>cache := older @ [(k, None)]\<rparr>"
  have "get ?c k = Inr (None, ?c)" using o(2) by (intro get_of_last) auto
  moreover have "filter (\<lambda>e. fst e \<noteq> k) (cache ?c) = older"
    using o(2) by (simp add: filter_keeps_others)
  ultimately show ?thesis using o(1) by (simp add: contains_def od_contains_def len_def)
qed

lemma cached_None_recomputed:
  assumes "map_of (cache c) (L, R) = Some None"
  shows "range_sum_with_cache array L R c =
     Inr (range_sum_no_cache array L R,
          c\<lparr>cache := filter (\<lambda>e. fst e \<noteq> (L, R)) (cache c) @ [((L, R), Some (range_sum_no_cache array L R))]\<rparr>)"
proof -
  let ?older = "filter (\<lambda>e. fst e \<noteq> (L, R)) (cache c)"
  let ?c1 = "c\<lparr>cache := ?older @ [((L, R), None)]\<rparr>"
  have g: "get c (L, R) = Inr (None, ?c1)" using get_present[OF assms] .
  have "od_contains (L, R) (cache ?c1)" by (simp add: od_contains_def)
  from put_present[OF this, of "Some (range_sum_no_cache array L R)"]
  have "put ?c1 (L, R) (Some (range_sum_no_cache array L R)) =
      Inr (c\<lparr>cache := ?older @ [((L, R), Some (range_sum_no_cache array L R))]\<rparr>)"
    by simp
  then show ?thesis using g by (simp add: range_sum_with_cache_def range_sum_no_cache_def Let_def)
qed

text \<open>
  Claim C10. A \<^verbatim>\<open>put(k, None)\<close> returns whenever the capacity is at least one or the
  cache is not empty (in the remaining case, a capacity below one and an empty cache,
  \<^verbatim>\<open>put\<close> raises \<^verbatim>\<open>KeyError\<close>). After it the key is present and is one of the
  entries \<^verbatim>\<open>len\<close> counts, yet \<^verbatim>\<open>get(k)\<close> returns \<^verbatim>\<open>None\<close>, which is also what
  \<^verbatim>\<open>get\<close> returns for any absent key. And \<^verbatim>\<open>range_sum_with_cache\<close> on a cache that
  holds \<^verbatim>\<open>None\<close> for \<open>(L, R)\<close> returns the recomputed sum and stores it in place of
  the \<^verbatim>\<open>None\<close>.
\<close>

theorem stored_None_is_a_miss:
  "(1 \<le> capacity c \<or> cache c \<noteq> [] \<longrightarrow>
      (\<exists>c'. put c k None = Inr c' \<and> contains c' k
           \<and> len c' = 1 + int (length (filter (\<lambda>e. fst e \<noteq> k) (cache c')))
           \<and> get c' k = Inr (None, c')
           \<and> (\<forall>k'. \<not> contains c' k' \<longrightarrow> get c' k' = Inr (None, c'))))
   \<and> (map_of (cache c2) (L, R) = Some None \<longrightarrow>
      (\<exists>c'. range_sum_with_cache array L R c2 = Inr (range_sum_no_cache array L R, c')
           \<and> map_of (cache c') (L, R) = Some (Some (range_sum_no_cache array L R))))"
proof (intro conjI impI)
  assume "1 \<le> capacity c \<or> cache c \<noteq> []"
  from stored_None_present[OF this, of k]
  show "\<exists>c'. put c k None = Inr c' \<and> contains c' k
           \<and> len c' = 1 + int (length (filter (\<lambda>e. fst e \<noteq> k) (cache c')))
           \<and> get c' k = Inr (None, c')
           \<and> (\<forall>k'. \<not> contains c' k' \<longrightarrow> get c' k' = Inr (None, c'))"
    by (auto simp: contains_def get_absent)
next
  assume a: "map_of (cache c2) (L, R) = Some None"
  show "\<exists>c'. range_sum_with_cache array L R c2 = Inr (range_sum_no_cache array L R, c')
           \<and> map_of (cache c') (L, R) = Some (Some (range_sum_no_cache array L R))"
    unfolding cached_None_recomputed[OF a] using map_of_moved[of "(L, R)" "cache c2"]
    by (simp del: map_of_append)
qed

theorem stored_None_is_a_miss_witness:
  "(1 \<le> capacity \<lparr>capacity = 1, cache = [(7::nat, Some (5::nat))]\<rparr>
    \<and> put \<lparr>capacity = 1, cache = [(7::nat, Some (5::nat))]\<rparr> 8 None
        = Inr \<lparr>capacity = 1, cache = [(8, None)]\<rparr>
    \<and> contains \<lparr>capacity = 1, cache = [(8::nat, None :: nat option)]\<rparr> 8
    \<and> len \<lparr>capacity = 1, cache = [(8::nat, None :: nat option)]\<rparr> = 1
    \<and> get \<lparr>capacity = 1, cache = [(8::nat, None :: nat option)]\<rparr> 8
        = Inr (None, \<lparr>capacity = 1, cache = [(8, None)]\<rparr>)
    \<and> get \<lparr>capacity = 1, cache = [(8::nat, None :: nat option)]\<rparr> 7
        = Inr (None, \<lparr>capacity = 1, cache = [(8, None)]\<rparr>))
   \<and> (map_of (cache \<lparr>capacity = 2, cache = [((0::int, 1::int), None :: int option), ((1, 1), Some 2)]\<rparr>) (0, 1) = Some None
    \<and> (\<exists>c'. range_sum_with_cache [1, 2, 3] 0 1 \<lparr>capacity = 2, cache = [((0, 1), None), ((1, 1), Some 2)]\<rparr>
               = Inr (3, c')
           \<and> map_of (cache c') (0, 1) = Some (Some 3)))"
proof -
  let ?c = "\<lparr>capacity = 1, cache = [(7::nat, Some (5::nat))]\<rparr>"
  let ?c2 = "\<lparr>capacity = 2, cache = [((0::int, 1::int), None :: int option), ((1, 1), Some 2)]\<rparr>"
  have h1: "1 \<le> capacity ?c \<or> cache ?c \<noteq> []" by simp
  have h2: "map_of (cache ?c2) (0, 1) = Some None" by simp
  have p: "put ?c 8 None = Inr \<lparr>capacity = 1, cache = [(8, None)]\<rparr>"
    by (simp add: put_def od_contains_def od_popitem_first_def)
  have s: "range_sum_no_cache [1, 2, 3] 0 1 = 3"
    by (simp add: range_sum_no_cache_def py_slice_def slice_bound_def)
  note t = stored_None_is_a_miss[where c = ?c and k = 8 and ?c2.0 = ?c2 and L = 0 and R = 1
      and array = "[1, 2, 3]"]
  have r1: "contains \<lparr>capacity = 1, cache = [(8::nat, None :: nat option)]\<rparr> 8
    \<and> len \<lparr>capacity = 1, cache = [(8::nat, None :: nat option)]\<rparr> = 1
    \<and> get \<lparr>capacity = 1, cache = [(8::nat, None :: nat option)]\<rparr> 8
        = Inr (None, \<lparr>capacity = 1, cache = [(8, None)]\<rparr>)
    \<and> get \<lparr>capacity = 1, cache = [(8::nat, None :: nat option)]\<rparr> 7
        = Inr (None, \<lparr>capacity = 1, cache = [(8, None)]\<rparr>)"
    using t h1 p by (auto simp: contains_def od_contains_def)
  have r2: "\<exists>c'. range_sum_with_cache [1, 2, 3] 0 1 ?c2 = Inr (3, c')
           \<and> map_of (cache c') (0, 1) = Some (Some 3)"
    using t h2 s by auto
  show ?thesis using h1 h2 p r1 r2 by simp
qed


section \<open>Rounding to a float\<close>

lemma pow2_powr: "pow2 e = 2 powr (real_of_int e)"
proof (cases "0 \<le> e")
  case True
  then show ?thesis by (simp add: pow2_def powr_realpow[symmetric])
next
  case False
  define n where "n = nat (- e)"
  have e: "e = - int n" using False by (simp add: n_def)
  have "2 powr (- real n) = 1 / 2 powr (real n)" by (rule powr_minus_divide)
  also have "\<dots> = 1 / 2 ^ n" by (simp add: powr_realpow)
  finally have "2 powr (real_of_int e) = 1 / 2 ^ n" by (simp add: e)
  moreover have "pow2 e = 1 / 2 ^ n" using False by (simp add: pow2_def n_def)
  ultimately show ?thesis by simp
qed

lemma pow2_pos [simp]: "0 < pow2 e"
  by (simp add: pow2_powr)

lemma pow2_add: "pow2 (a + b) = pow2 a * pow2 b"
  by (simp add: pow2_powr powr_add)

lemma pow2_nat: "0 \<le> e \<Longrightarrow> pow2 e = 2 ^ nat e"
  by (simp add: pow2_def)

text \<open>The exponent of the last place, from the binary exponent \<open>k\<close> of a normal number.\<close>

lemma ulp_exp_normal:
  assumes lo: "pow2 k \<le> \<bar>x\<bar>" and hi: "\<bar>x\<bar> < pow2 (k + 1)" and k: "- 1022 \<le> k"
  shows "ulp_exp x = k - 52"
proof -
  let ?n = "\<lfloor>\<bar>x\<bar> * 2 ^ 1074\<rfloor>"
  have s: "(2::real) ^ 1074 = pow2 1074" by (simp add: pow2_def)
  have "pow2 (k + 1074) \<le> \<bar>x\<bar> * 2 ^ 1074"
    unfolding s pow2_add[of k 1074] using lo by simp
  then have "real_of_int (2 ^ nat (k + 1074)) \<le> \<bar>x\<bar> * 2 ^ 1074"
    using k by (simp add: pow2_nat)
  then have a: "2 ^ nat (k + 1074) \<le> ?n" by (simp add: le_floor_iff)
  have "\<bar>x\<bar> * 2 ^ 1074 < pow2 (k + 1 + 1074)"
    unfolding s pow2_add[of "k + 1" 1074] using hi by simp
  then have "\<bar>x\<bar> * 2 ^ 1074 < real_of_int (2 ^ nat (k + 1075))"
    using k by (simp add: pow2_nat add.commute)
  then have b: "?n < 2 ^ nat (k + 1075)" by (simp add: floor_less_iff)
  have "bitlen ?n \<le> k + 1075" using b k by (simp add: bitlen_le_iff_power)
  moreover have "k + 1075 \<le> bitlen ?n"
  proof -
    have "nat (k + 1075) - 1 = nat (k + 1074)" using k by simp
    then show ?thesis using a by (simp add: bitlen_ge_iff_power)
  qed
  ultimately have "bitlen ?n = k + 1075" by simp
  then show ?thesis using k by (simp add: ulp_exp_def)
qed

lemma round_half_even_int: "round_half_even (of_int j) = j"
  by (simp add: round_half_even_def)

text \<open>Every float is its own rounding: the arithmetic is exact when the exact result is a float.\<close>

lemma double_round_exact:
  assumes m: "\<bar>m\<bar> < 2 ^ 53" and e: "- 1074 \<le> e"
  shows "double_round (of_int m * pow2 e) = of_int m * pow2 e"
proof -
  let ?x = "real_of_int m * pow2 e"
  have s: "(2::real) ^ 1074 = pow2 1074" by (simp add: pow2_def)
  have "\<bar>?x\<bar> * 2 ^ 1074 = real_of_int \<bar>m\<bar> * (pow2 e * pow2 1074)"
    unfolding s by (simp add: abs_mult abs_of_pos)
  also have "\<dots> = real_of_int \<bar>m\<bar> * pow2 (e + 1074)"
    by (simp only: pow2_add)
  also have "\<dots> = real_of_int \<bar>m\<bar> * 2 ^ nat (e + 1074)"
    using e by (simp only: pow2_def) simp
  also have "\<dots> = real_of_int (\<bar>m\<bar> * 2 ^ nat (e + 1074))" by simp
  finally have n: "\<lfloor>\<bar>?x\<bar> * 2 ^ 1074\<rfloor> = \<bar>m\<bar> * 2 ^ nat (e + 1074)"
    by (simp only: floor_of_int)
  have "bitlen (\<bar>m\<bar> * 2 ^ nat (e + 1074)) \<le> 53 + (e + 1074)"
  proof (cases "m = 0")
    case True
    then show ?thesis using e by simp
  next
    case False
    then have "bitlen (\<bar>m\<bar> * 2 ^ nat (e + 1074)) = bitlen \<bar>m\<bar> + int (nat (e + 1074))"
      by (intro bitlen_pow2) simp
    moreover have "bitlen \<bar>m\<bar> \<le> 53" using m by (simp add: bitlen_le_iff_power)
    ultimately show ?thesis using e by simp
  qed
  then have le: "ulp_exp ?x \<le> e" using e unfolding ulp_exp_def n by simp
  define E where "E = ulp_exp ?x"
  define d where "d = e - E"
  have d: "0 \<le> d" "e = E + d" using le by (simp_all add: d_def E_def)
  have pe: "pow2 e = pow2 E * 2 ^ nat d"
    using d pow2_add[of E d] by (simp add: pow2_nat)
  have "pow2 E \<noteq> 0" by (metis pow2_pos less_irrefl)
  then have "real_of_int m * (pow2 E * 2 ^ nat d) / pow2 E = real_of_int (m * 2 ^ nat d)"
    by simp
  then have q: "real_of_int m * pow2 e / pow2 E = real_of_int (m * 2 ^ nat d)"
    by (simp only: pe)
  have "double_round ?x = real_of_int (round_half_even (?x / pow2 E)) * pow2 E"
    by (simp add: double_round_def E_def Let_def)
  also have "\<dots> = real_of_int (m * 2 ^ nat d) * pow2 E"
    by (simp only: q round_half_even_int)
  also have "\<dots> = real_of_int m * (pow2 E * 2 ^ nat d)" by simp
  also have "\<dots> = ?x" by (simp only: pe)
  finally show ?thesis .
qed

lemma to_double_exact:
  assumes "\<bar>m\<bar> < 2 ^ 53" and "- 1074 \<le> e" and "\<bar>of_int m * pow2 e\<bar> < 2 ^ 1024"
  shows "to_double (of_int m * pow2 e) = Finite (of_int m * pow2 e)"
  using assms(3) by (simp add: to_double_def double_round_exact[OF assms(1,2)] abs_less_iff not_le)

lemma to_double_int: "\<bar>m\<bar> < 2 ^ 53 \<Longrightarrow> to_double (of_int m) = Finite (of_int m)"
proof -
  assume m: "\<bar>m\<bar> < 2 ^ 53"
  then have "\<bar>real_of_int m\<bar> < 2 ^ 53" by (metis of_int_abs of_int_less_numeral_power_cancel_iff)
  also have "\<dots> < (2::real) ^ 1024" by simp
  finally show ?thesis using to_double_exact[OF m, of 0] by (simp add: pow2_def)
qed

lemma float_le_iff: "float_le t c = (\<not> float_gt t c)"
  by (cases c) (auto simp: float_le_def float_gt_def)

lemma float_max0_nonneg: "float_nonneg (float_max0 x)"
  by (cases x) (simp_all add: float_max0_def float_nonneg_def)

section \<open>The floats and sums of the examples\<close>

text \<open>
  The floats written \<^verbatim>\<open>9.999\<close>, \<^verbatim>\<open>10.001\<close>, \<^verbatim>\<open>0.1\<close>, \<^verbatim>\<open>0.2\<close>, \<^verbatim>\<open>0.6\<close> and
  \<^verbatim>\<open>0.7\<close>: the roundings of these decimal numbers.
\<close>

lemma double_9_999: "double_round 9.999 = 5628936584259699 / 2 ^ 49"
proof -
  have "ulp_exp 9.999 = 3 - 52" by (rule ulp_exp_normal) (simp_all add: pow2_def)
  then show ?thesis by (simp add: double_round_def pow2_def round_half_even_def)
qed

lemma double_10_001: "double_round 10.001 = 5630062484166541 / 2 ^ 49"
proof -
  have "ulp_exp 10.001 = 3 - 52" by (rule ulp_exp_normal) (simp_all add: pow2_def)
  then show ?thesis by (simp add: double_round_def pow2_def round_half_even_def)
qed

lemma double_0_1: "double_round 0.1 = 3602879701896397 / 2 ^ 55"
proof -
  have "ulp_exp 0.1 = - 4 - 52" by (rule ulp_exp_normal) (simp_all add: pow2_def)
  then show ?thesis by (simp add: double_round_def pow2_def round_half_even_def)
qed

lemma double_0_2: "double_round 0.2 = 3602879701896397 / 2 ^ 54"
proof -
  have "ulp_exp 0.2 = - 3 - 52" by (rule ulp_exp_normal) (simp_all add: pow2_def)
  then show ?thesis by (simp add: double_round_def pow2_def round_half_even_def)
qed

lemma double_0_6: "double_round 0.6 = 5404319552844595 / 2 ^ 53"
proof -
  have "ulp_exp 0.6 = - 1 - 52" by (rule ulp_exp_normal) (simp_all add: pow2_def)
  then show ?thesis by (simp add: double_round_def pow2_def round_half_even_def)
qed

lemma double_0_7: "double_round 0.7 = 3152519739159347 / 2 ^ 52"
proof -
  have "ulp_exp 0.7 = - 1 - 52" by (rule ulp_exp_normal) (simp_all add: pow2_def)
  then show ?thesis by (simp add: double_round_def pow2_def round_half_even_def)
qed

text \<open>
  Subtractions and additions of the examples. The first two are exact; the last two
  round: \<^verbatim>\<open>0.7 - 0.1\<close> is the float \<^verbatim>\<open>0.6\<close>, and \<^verbatim>\<open>0.1 + 0.2\<close> is the float above
  \<^verbatim>\<open>0.3\<close>.
\<close>

lemma sub_9_999_10: "float_sub (double_round 9.999) 10 = Finite (- 562949953421 / 2 ^ 49)"
proof -
  have "5628936584259699 / 2 ^ 49 - 10 = real_of_int (- 562949953421) * pow2 (- 49)"
    by (simp add: pow2_def)
  then have "float_sub (double_round 9.999) 10 = to_double (of_int (- 562949953421) * pow2 (- 49))"
    unfolding float_sub_def double_9_999 by (rule arg_cong)
  also have "\<dots> = Finite (of_int (- 562949953421) * pow2 (- 49))"
    by (rule to_double_exact) (simp_all add: pow2_def)
  finally show ?thesis by (simp add: pow2_def)
qed

lemma sub_10_001_10: "float_sub (double_round 10.001) 10 = Finite (562949953421 / 2 ^ 49)"
proof -
  have "5630062484166541 / 2 ^ 49 - 10 = real_of_int 562949953421 * pow2 (- 49)"
    by (simp add: pow2_def)
  then have "float_sub (double_round 10.001) 10 = to_double (of_int 562949953421 * pow2 (- 49))"
    unfolding float_sub_def double_10_001 by (rule arg_cong)
  also have "\<dots> = Finite (of_int 562949953421 * pow2 (- 49))"
    by (rule to_double_exact) (simp_all add: pow2_def)
  finally show ?thesis by (simp add: pow2_def)
qed

lemma float_sub_ints:
  "\<bar>a - b\<bar> < 2 ^ 53 \<Longrightarrow> float_sub (of_int a) (of_int b) = Finite (of_int (a - b))"
  using to_double_int[of "a - b"] by (simp add: float_sub_def)

lemma float_add_ints:
  "\<bar>a + b\<bar> < 2 ^ 53 \<Longrightarrow> float_add (of_int a) (of_int b) = Finite (of_int (a + b))"
  using to_double_int[of "a + b"] by (simp add: float_add_def)

lemma sub_0_7_0_1: "float_sub (double_round 0.7) (double_round 0.1) = Finite (double_round 0.6)"
proof -
  let ?x = "21617278211378379 / 2 ^ 55 :: real"
  have x: "double_round 0.7 - double_round 0.1 = ?x" unfolding double_0_7 double_0_1 by simp
  have "ulp_exp ?x = - 1 - 52" by (rule ulp_exp_normal) (simp_all add: pow2_def)
  then have "double_round ?x = 5404319552844595 / 2 ^ 53"
    by (simp add: double_round_def pow2_def round_half_even_def)
  then have "to_double ?x = Finite (5404319552844595 / 2 ^ 53)" by (simp add: to_double_def)
  then show ?thesis unfolding float_sub_def x double_0_6 .
qed

lemma add_0_1_0_2:
  "float_add (double_round 0.1) (double_round 0.2) = Finite (1351079888211149 / 2 ^ 52)"
proof -
  let ?x = "10808639105689191 / 2 ^ 55 :: real"
  have x: "double_round 0.1 + double_round 0.2 = ?x" unfolding double_0_1 double_0_2 by simp
  have "ulp_exp ?x = - 2 - 52" by (rule ulp_exp_normal) (simp_all add: pow2_def)
  then have "double_round ?x = 1351079888211149 / 2 ^ 52"
    by (simp add: double_round_def pow2_def round_half_even_def)
  then have "to_double ?x = Finite (1351079888211149 / 2 ^ 52)" by (simp add: to_double_def)
  then show ?thesis unfolding float_add_def x .
qed

section \<open>The rate limiter's methods, characterised\<close>

text \<open>
  What \<^verbatim>\<open>_clean_old_messages\<close> leaves for the user: the stored timestamps above the
  cutoff, the float \<^verbatim>\<open>current_time - window_size\<close>.
\<close>

lemma clean_old_messages_eq:
  "clean_old_messages rl u t = rl\<lparr>user_messages := (user_messages rl)(u \<mapsto> kept_at rl u t)\<rparr>"
  by (simp add: clean_old_messages_def dd_getitem_def stored_def kept_at_def float_le_iff
      split: option.splits)

lemma can_send_message_eq:
  "can_send_message rl u t =
     (int (length (kept_at rl u t)) < max_messages rl,
      rl\<lparr>user_messages := (user_messages rl)(u \<mapsto> kept_at rl u t)\<rparr>)"
  by (simp add: can_send_message_def clean_old_messages_eq dd_getitem_def)

lemma get_message_count_eq:
  "get_message_count rl u t =
     (int (length (kept_at rl u t)),
      rl\<lparr>user_messages := (user_messages rl)(u \<mapsto> kept_at rl u t)\<rparr>)"
  by (simp add: get_message_count_def clean_old_messages_eq dd_getitem_def)

lemma record_message_eq:
  "record_message rl u t1 t2 =
     (if int (length (kept_at rl u t1)) < max_messages rl
      then (True, rl\<lparr>user_messages := (user_messages rl)(u \<mapsto> kept_at rl u t1 @ [t2])\<rparr>)
      else (False, rl\<lparr>user_messages := (user_messages rl)(u \<mapsto> kept_at rl u t1)\<rparr>))"
  by (simp add: record_message_def can_send_message_eq dd_getitem_def)

lemma py_min_eq: "py_min xs = (if xs = [] then Inl ValueError else Inr (Min (set xs)))"
proof (cases xs)
  case Nil
  then show ?thesis by (simp add: py_min_def)
next
  case (Cons x rest)
  then show ?thesis using Min.set_eq_fold[of x rest] by (simp add: py_min_def)
qed

lemma time_until_next_allowed_eq:
  "time_until_next_allowed rl u t =
     (let rl' = rl\<lparr>user_messages := (user_messages rl)(u \<mapsto> kept_at rl u t)\<rparr>
      in if int (length (kept_at rl u t)) < max_messages rl then Inr (Finite 0, rl')
         else if kept_at rl u t = [] then Inl ValueError
         else Inr (float_max0 (float_sub_finite
                      (float_add (Min (set (kept_at rl u t))) (window_size rl)) t), rl'))"
  by (simp add: time_until_next_allowed_def clean_old_messages_eq dd_getitem_def Let_def
      py_min_eq)

lemma stored_update [simp]:
  "stored (rl\<lparr>user_messages := (user_messages rl)(u \<mapsto> l)\<rparr>) u' = (if u' = u then l else stored rl u')"
  by (simp add: stored_def)

section \<open>The sliding window\<close>

text \<open>
  Claim C6. \<^verbatim>\<open>can_send_message\<close> removes the user's stored timestamps \<open>t\<close> with
  \<open>t \<le> now - window_size\<close>, the difference being the float the subtraction gives, keeps
  the others in their order, and returns whether the remaining count is below
  \<^verbatim>\<open>max_messages\<close>. With a window of 10 and at most 1 message, a record at time 0 is
  accepted; afterwards \<^verbatim>\<open>can_send_message\<close> returns false at the float \<^verbatim>\<open>9.999\<close>,
  true at the float \<^verbatim>\<open>10.001\<close>, and true at time 10, where the timestamp 0 is exactly
  \<open>now - window_size\<close>.
\<close>

theorem can_send_message_window:
  "stored (snd (can_send_message rl u now)) u
     = filter (\<lambda>t. \<not> float_le t (float_sub now (window_size rl))) (stored rl u)
   \<and> fst (can_send_message rl u now)
       = (int (length (stored (snd (can_send_message rl u now)) u)) < max_messages rl)
   \<and> SlidingWindowRateLimiter_init 10 1
       = Inr \<lparr>window_size = 10, max_messages = 1, user_messages = Map.empty\<rparr>
   \<and> record_message \<lparr>window_size = 10, max_messages = 1, user_messages = Map.empty\<rparr> v 0 0
       = (True, \<lparr>window_size = 10, max_messages = 1, user_messages = [v \<mapsto> [0]]\<rparr>)
   \<and> fst (can_send_message \<lparr>window_size = 10, max_messages = 1, user_messages = [v \<mapsto> [0]]\<rparr> v
            (double_round 9.999)) = False
   \<and> fst (can_send_message \<lparr>window_size = 10, max_messages = 1, user_messages = [v \<mapsto> [0]]\<rparr> v
            (double_round 10.001)) = True
   \<and> fst (can_send_message \<lparr>window_size = 10, max_messages = 1, user_messages = [v \<mapsto> [0]]\<rparr> v 10) = True"
proof -
  let ?rl = "\<lparr>window_size = 10, max_messages = 1, user_messages = [v \<mapsto> [0]]\<rparr>"
  have s: "stored ?rl v = [0]" by (simp add: stored_def)
  have a: "stored (snd (can_send_message rl u now)) u
     = filter (\<lambda>t. \<not> float_le t (float_sub now (window_size rl))) (stored rl u)"
    by (simp add: can_send_message_eq kept_at_def)
  have b: "fst (can_send_message rl u now)
       = (int (length (stored (snd (can_send_message rl u now)) u)) < max_messages rl)"
    by (simp add: can_send_message_eq)
  have c: "SlidingWindowRateLimiter_init 10 1
       = Inr \<lparr>window_size = 10, max_messages = 1, user_messages = Map.empty\<rparr>"
    by (simp add: SlidingWindowRateLimiter_init_def)
  have d: "record_message \<lparr>window_size = 10, max_messages = 1, user_messages = Map.empty\<rparr> v 0 0
       = (True, \<lparr>window_size = 10, max_messages = 1, user_messages = [v \<mapsto> [0]]\<rparr>)"
    by (simp add: record_message_eq kept_at_def stored_def)
  have w: "window_size ?rl = 10" by simp
  have "kept_at ?rl v (double_round 9.999) = [0]"
    unfolding kept_at_def w s sub_9_999_10 by (simp add: float_le_def)
  then have e: "fst (can_send_message ?rl v (double_round 9.999)) = False"
    unfolding can_send_message_eq by simp
  have "kept_at ?rl v (double_round 10.001) = []"
    unfolding kept_at_def w s sub_10_001_10 by (simp add: float_le_def)
  then have f: "fst (can_send_message ?rl v (double_round 10.001)) = True"
    unfolding can_send_message_eq by simp
  have "float_sub 10 10 = Finite 0" using float_sub_ints[of 10 10] by simp
  then have g: "fst (can_send_message ?rl v 10) = True"
    by (simp add: can_send_message_eq kept_at_def s float_le_def)
  show ?thesis using a b c d e f g by (intro conjI)
qed

section \<open>The waiting time\<close>

text \<open>
  The waiting time is computed in floats, and it is the rounded value that is returned:
  with a window of \<^verbatim>\<open>0.2\<close>, the timestamp \<^verbatim>\<open>0.1\<close> and the clock at 0 the call
  returns the float above \<^verbatim>\<open>0.3\<close>, written \<^verbatim>\<open>0.30000000000000004\<close>.
\<close>

lemma time_until_next_allowed_rounds:
  assumes w: "w = double_round 0.2" and t: "t = double_round 0.1"
  shows "time_until_next_allowed
     \<lparr>window_size = w, max_messages = 1, user_messages = [v \<mapsto> [t]]\<rparr> v 0
   = Inr (Finite (1351079888211149 / 2 ^ 52),
          \<lparr>window_size = w, max_messages = 1, user_messages = [v \<mapsto> [t]]\<rparr>)"
proof -
  let ?rl = "\<lparr>window_size = w, max_messages = 1, user_messages = [v \<mapsto> [t]]\<rparr>"
  have s: "stored ?rl v = [t]" by (simp add: stored_def)
  have "0 - w = real_of_int (- 3602879701896397) * pow2 (- 54)"
    unfolding w double_0_2 by (simp add: pow2_def)
  then have "float_sub 0 w = to_double (of_int (- 3602879701896397) * pow2 (- 54))"
    unfolding float_sub_def by (rule arg_cong)
  also have "\<dots> = Finite (of_int (- 3602879701896397) * pow2 (- 54))"
    by (rule to_double_exact) (simp_all add: pow2_def)
  finally have c: "float_sub 0 w = Finite (- (3602879701896397 / 2 ^ 54))"
    by (simp add: pow2_def)
  have tv: "t = 3602879701896397 / 2 ^ 55" unfolding t double_0_1 ..
  have k: "kept_at ?rl v 0 = [t]"
    by (simp add: kept_at_def s c float_le_def) (simp add: tv)
  have "float_add t w = Finite (1351079888211149 / 2 ^ 52)"
    unfolding t w by (rule add_0_1_0_2)
  moreover have "float_sub (1351079888211149 / 2 ^ 52) 0 = Finite (1351079888211149 / 2 ^ 52)"
  proof -
    have "(1351079888211149 / 2 ^ 52 :: real) - 0 = real_of_int 1351079888211149 * pow2 (- 52)"
      by (simp add: pow2_def)
    then have "float_sub (1351079888211149 / 2 ^ 52) 0 = to_double (of_int 1351079888211149 * pow2 (- 52))"
      unfolding float_sub_def by (rule arg_cong)
    also have "\<dots> = Finite (of_int 1351079888211149 * pow2 (- 52))"
      by (rule to_double_exact) (simp_all add: pow2_def)
    finally show ?thesis by (simp add: pow2_def)
  qed
  ultimately have r: "float_sub_finite (float_add t w) 0 = Finite (1351079888211149 / 2 ^ 52)"
    by (simp add: float_sub_finite_def)
  show ?thesis
    by (simp add: time_until_next_allowed_eq k r float_max0_def)
qed

text \<open>
  Claim C7. On a limiter whose \<^verbatim>\<open>max_messages\<close> is at least 1,
  \<^verbatim>\<open>time_until_next_allowed\<close> prunes the user's timestamps \<open>t \<le> now - window_size\<close> and
  returns. If the retained count is below \<^verbatim>\<open>max_messages\<close> it returns 0. Otherwise it
  returns the maximum of 0 and \<open>(oldest retained timestamp + window_size) - now\<close>, the sum
  and the differences being the floats the operations give. The value it returns is
  never negative. With a window of 10, at most 1 message and one timestamp 0, the call at
  time 3 returns exactly 7.
\<close>

theorem time_until_next_allowed_correct:
  assumes "1 \<le> max_messages rl"
  shows "(int (length (filter (\<lambda>t. \<not> float_le t (float_sub now (window_size rl))) (stored rl u)))
            < max_messages rl \<longrightarrow>
      (\<exists>rl'. time_until_next_allowed rl u now = Inr (Finite 0, rl')
           \<and> stored rl' u = filter (\<lambda>t. \<not> float_le t (float_sub now (window_size rl))) (stored rl u)))
   \<and> (\<not> int (length (filter (\<lambda>t. \<not> float_le t (float_sub now (window_size rl))) (stored rl u)))
            < max_messages rl \<longrightarrow>
      (\<exists>rl'. time_until_next_allowed rl u now
              = Inr (float_max0 (float_sub_finite
                       (float_add
                          (Min (set (filter (\<lambda>t. \<not> float_le t (float_sub now (window_size rl))) (stored rl u))))
                          (window_size rl))
                       now), rl')
           \<and> stored rl' u = filter (\<lambda>t. \<not> float_le t (float_sub now (window_size rl))) (stored rl u)))
   \<and> (\<exists>w rl'. time_until_next_allowed rl u now = Inr (w, rl') \<and> float_nonneg w)
   \<and> time_until_next_allowed \<lparr>window_size = 10, max_messages = 1, user_messages = [v \<mapsto> [0]]\<rparr> v 3
       = Inr (Finite 7, \<lparr>window_size = 10, max_messages = 1, user_messages = [v \<mapsto> [0]]\<rparr>)"
proof -
  let ?kept = "filter (\<lambda>t. \<not> float_le t (float_sub now (window_size rl))) (stored rl u)"
  have k: "kept_at rl u now = ?kept" by (simp add: kept_at_def)
  have ne: "\<not> int (length ?kept) < max_messages rl \<Longrightarrow> ?kept \<noteq> []"
    using assms by auto
  have a: "int (length ?kept) < max_messages rl \<longrightarrow>
      (\<exists>rl'. time_until_next_allowed rl u now = Inr (Finite 0, rl') \<and> stored rl' u = ?kept)"
    by (simp add: time_until_next_allowed_eq k Let_def)
  have b: "\<not> int (length ?kept) < max_messages rl \<longrightarrow>
      (\<exists>rl'. time_until_next_allowed rl u now
              = Inr (float_max0 (float_sub_finite (float_add (Min (set ?kept)) (window_size rl)) now), rl')
           \<and> stored rl' u = ?kept)"
    using ne by (simp add: time_until_next_allowed_eq k Let_def)
  have c: "\<exists>w rl'. time_until_next_allowed rl u now = Inr (w, rl') \<and> float_nonneg w"
  proof (cases "int (length ?kept) < max_messages rl")
    case True
    then show ?thesis using a by (auto simp: float_nonneg_def)
  next
    case False
    then show ?thesis using b float_max0_nonneg by blast
  qed
  let ?r = "\<lparr>window_size = 10, max_messages = 1, user_messages = [v \<mapsto> [0]]\<rparr>"
  have s: "stored ?r v = [0]" by (simp add: stored_def)
  have f1: "float_sub 3 10 = Finite (- 7)" using float_sub_ints[of 3 10] by simp
  have f2: "float_add 0 10 = Finite 10" using float_add_ints[of 0 10] by simp
  have f3: "float_sub 10 3 = Finite 7" using float_sub_ints[of 10 3] by simp
  have kk: "kept_at ?r v 3 = [0]" by (simp add: kept_at_def s f1 float_le_def)
  have d: "time_until_next_allowed ?r v 3 = Inr (Finite 7, ?r)"
    by (simp add: time_until_next_allowed_eq kk f2 f3 float_sub_finite_def float_max0_def)
  show ?thesis using a b c d by (intro conjI)
qed

theorem time_until_next_allowed_correct_witness:
  "1 \<le> max_messages \<lparr>window_size = 10, max_messages = 2, user_messages = [''user_1'' \<mapsto> [1, 5]]\<rparr>
   \<and> (\<exists>rl'. time_until_next_allowed
            \<lparr>window_size = 10, max_messages = 2, user_messages = [''user_1'' \<mapsto> [1, 5]]\<rparr> ''user_1'' 12
          = Inr (Finite 0, rl') \<and> stored rl' ''user_1'' = [5])
   \<and> (\<exists>rl'. time_until_next_allowed
            \<lparr>window_size = 10, max_messages = 2, user_messages = [''user_1'' \<mapsto> [1, 5]]\<rparr> ''user_1'' 9
          = Inr (Finite 2, rl') \<and> stored rl' ''user_1'' = [1, 5])"
proof -
  let ?rl = "\<lparr>window_size = 10, max_messages = 2, user_messages = [''user_1'' \<mapsto> [1, 5]]\<rparr>"
  have h: "1 \<le> max_messages ?rl" by simp
  have s: "stored ?rl ''user_1'' = [1, 5]" by (simp add: stored_def)
  have f1: "float_sub 12 10 = Finite 2" using float_sub_ints[of 12 10] by simp
  have f2: "float_sub 9 10 = Finite (- 1)" using float_sub_ints[of 9 10] by simp
  have f3: "float_add 1 10 = Finite 11" using float_add_ints[of 1 10] by simp
  have f4: "float_sub 11 9 = Finite 2" using float_sub_ints[of 11 9] by simp
  have r1: "\<exists>rl'. time_until_next_allowed ?rl ''user_1'' 12 = Inr (Finite 0, rl') \<and> stored rl' ''user_1'' = [5]"
    using time_until_next_allowed_correct[OF h, where u = "''user_1''" and now = 12]
    by (simp add: s f1 float_le_def)
  have r2: "\<exists>rl'. time_until_next_allowed ?rl ''user_1'' 9 = Inr (Finite 2, rl') \<and> stored rl' ''user_1'' = [1, 5]"
    using time_until_next_allowed_correct[OF h, where u = "''user_1''" and now = 9]
    by (simp add: s f2 f3 f4 float_le_def float_sub_finite_def float_max0_def)
  show ?thesis using h r1 r2 by (intro conjI)
qed

section \<open>Recording a message\<close>

text \<open>
  The cutoff is the rounded difference: with a window of \<^verbatim>\<open>0.1\<close>, at most 1 message
  and the timestamp \<^verbatim>\<open>0.6\<close> stored, at the clock reading \<^verbatim>\<open>0.7\<close> the cutoff
  \<^verbatim>\<open>0.7 - 0.1\<close> is the float \<^verbatim>\<open>0.6\<close>, so the timestamp is pruned, the message is
  permitted and the second clock reading is appended.
\<close>

lemma record_message_rounds:
  assumes w: "w = double_round 0.1" and t: "t = double_round 0.6" and n: "now = double_round 0.7"
  shows "can_send_message \<lparr>window_size = w, max_messages = 1, user_messages = [v \<mapsto> [t]]\<rparr> v now
           = (True, \<lparr>window_size = w, max_messages = 1, user_messages = [v \<mapsto> []]\<rparr>)"
    and "record_message \<lparr>window_size = w, max_messages = 1, user_messages = [v \<mapsto> [t]]\<rparr> v now now'
           = (True, \<lparr>window_size = w, max_messages = 1, user_messages = [v \<mapsto> [now']]\<rparr>)"
proof -
  let ?rl = "\<lparr>window_size = w, max_messages = 1, user_messages = [v \<mapsto> [t]]\<rparr>"
  have s: "stored ?rl v = [t]" by (simp add: stored_def)
  have c: "float_sub now w = Finite t" unfolding n w t by (rule sub_0_7_0_1)
  have k: "kept_at ?rl v now = []" by (simp add: kept_at_def s c float_le_def)
  show "can_send_message ?rl v now
           = (True, \<lparr>window_size = w, max_messages = 1, user_messages = [v \<mapsto> []]\<rparr>)"
    by (simp add: can_send_message_eq k)
  show "record_message ?rl v now now'
           = (True, \<lparr>window_size = w, max_messages = 1, user_messages = [v \<mapsto> [now']]\<rparr>)"
    by (simp add: record_message_eq k)
qed

text \<open>
  Claim C8, as stated, fails: \<^verbatim>\<open>record_message\<close> does not work with one clock reading.
  The check inside \<^verbatim>\<open>can_send_message\<close> prunes with its own reading, and the
  timestamp appended is a second, later reading. With a window of 10, at most 2 messages
  and the timestamp 1 stored, a check at time 10 keeps 1 and permits, and the reading 12
  is appended: the list becomes \<open>[1, 12]\<close>. One reading for the whole operation would
  give \<open>[1, 10]\<close> (reading 10) or \<open>[12]\<close> (reading 12).
\<close>

theorem record_message_counterexample:
  "record_message \<lparr>window_size = 10, max_messages = 2, user_messages = [''user_1'' \<mapsto> [1]]\<rparr> ''user_1'' 10 12
     = (True, \<lparr>window_size = 10, max_messages = 2, user_messages = [''user_1'' \<mapsto> [1, 12]]\<rparr>)
   \<and> record_message \<lparr>window_size = 10, max_messages = 2, user_messages = [''user_1'' \<mapsto> [1]]\<rparr> ''user_1'' 10 10
     = (True, \<lparr>window_size = 10, max_messages = 2, user_messages = [''user_1'' \<mapsto> [1, 10]]\<rparr>)
   \<and> record_message \<lparr>window_size = 10, max_messages = 2, user_messages = [''user_1'' \<mapsto> [1]]\<rparr> ''user_1'' 12 12
     = (True, \<lparr>window_size = 10, max_messages = 2, user_messages = [''user_1'' \<mapsto> [12]]\<rparr>)
   \<and> record_message \<lparr>window_size = 10, max_messages = 2, user_messages = [''user_1'' \<mapsto> [1]]\<rparr> ''user_1'' 10 12
     \<noteq> record_message \<lparr>window_size = 10, max_messages = 2, user_messages = [''user_1'' \<mapsto> [1]]\<rparr> ''user_1'' 10 10
   \<and> record_message \<lparr>window_size = 10, max_messages = 2, user_messages = [''user_1'' \<mapsto> [1]]\<rparr> ''user_1'' 10 12
     \<noteq> record_message \<lparr>window_size = 10, max_messages = 2, user_messages = [''user_1'' \<mapsto> [1]]\<rparr> ''user_1'' 12 12"
proof -
  let ?rl = "\<lparr>window_size = 10, max_messages = 2, user_messages = [''user_1'' \<mapsto> [1]]\<rparr>"
  have f1: "float_sub 10 10 = Finite 0" using float_sub_ints[of 10 10] by simp
  have f2: "float_sub 12 10 = Finite 2" using float_sub_ints[of 12 10] by simp
  have k1: "kept_at ?rl ''user_1'' 10 = [1]" by (simp add: kept_at_def stored_def f1 float_le_def)
  have k2: "kept_at ?rl ''user_1'' 12 = []" by (simp add: kept_at_def stored_def f2 float_le_def)
  have e1: "record_message ?rl ''user_1'' 10 12
     = (True, \<lparr>window_size = 10, max_messages = 2, user_messages = [''user_1'' \<mapsto> [1, 12]]\<rparr>)"
    by (simp add: record_message_eq k1)
  have e2: "record_message ?rl ''user_1'' 10 10
     = (True, \<lparr>window_size = 10, max_messages = 2, user_messages = [''user_1'' \<mapsto> [1, 10]]\<rparr>)"
    by (simp add: record_message_eq k1)
  have e3: "record_message ?rl ''user_1'' 12 12
     = (True, \<lparr>window_size = 10, max_messages = 2, user_messages = [''user_1'' \<mapsto> [12]]\<rparr>)"
    by (simp add: record_message_eq k2)
  have n1: "record_message ?rl ''user_1'' 10 12 \<noteq> record_message ?rl ''user_1'' 10 10"
    unfolding e1 e2 by (auto dest: map_upd_eqD1)
  have n2: "record_message ?rl ''user_1'' 10 12 \<noteq> record_message ?rl ''user_1'' 12 12"
    unfolding e1 e3 by (auto dest: map_upd_eqD1)
  show ?thesis using e1 e2 e3 n1 n2 by (intro conjI)
qed

text \<open>
  Claim C8, amended. \<^verbatim>\<open>record_message\<close> re-checks the permission itself, pruning the
  user's timestamps \<open>t \<le> t1 - window_size\<close> with the clock reading \<open>t1\<close> of that check
  (the difference being the float the subtraction gives). If the count after pruning is
  at or above \<^verbatim>\<open>max_messages\<close> it returns false and appends nothing: the user's list is
  the pruned list. If the count is below \<^verbatim>\<open>max_messages\<close> it reads the clock again,
  appends that second reading \<open>t2\<close> to the pruned list and returns true. The lists of the
  other users and the configuration do not change.
\<close>

theorem record_message_correct:
  "(\<not> int (length (filter (\<lambda>t. \<not> float_le t (float_sub t1 (window_size rl))) (stored rl u)))
        < max_messages rl \<longrightarrow>
      fst (record_message rl u t1 t2) = False
      \<and> stored (snd (record_message rl u t1 t2)) u
          = filter (\<lambda>t. \<not> float_le t (float_sub t1 (window_size rl))) (stored rl u))
   \<and> (int (length (filter (\<lambda>t. \<not> float_le t (float_sub t1 (window_size rl))) (stored rl u)))
        < max_messages rl \<longrightarrow>
      fst (record_message rl u t1 t2) = True
      \<and> stored (snd (record_message rl u t1 t2)) u
          = filter (\<lambda>t. \<not> float_le t (float_sub t1 (window_size rl))) (stored rl u) @ [t2])
   \<and> fst (record_message rl u t1 t2) = fst (can_send_message rl u t1)
   \<and> (\<forall>u'. u' \<noteq> u \<longrightarrow> stored (snd (record_message rl u t1 t2)) u' = stored rl u')
   \<and> window_size (snd (record_message rl u t1 t2)) = window_size rl
   \<and> max_messages (snd (record_message rl u t1 t2)) = max_messages rl"
proof -
  let ?kept = "filter (\<lambda>t. \<not> float_le t (float_sub t1 (window_size rl))) (stored rl u)"
  have k: "kept_at rl u t1 = ?kept" by (simp add: kept_at_def)
  show ?thesis
  proof (cases "int (length ?kept) < max_messages rl")
    case True
    then have "record_message rl u t1 t2
        = (True, rl\<lparr>user_messages := (user_messages rl)(u \<mapsto> ?kept @ [t2])\<rparr>)"
      by (simp add: record_message_eq k)
    moreover have "fst (can_send_message rl u t1) = True"
      using True by (simp add: can_send_message_eq k)
    ultimately show ?thesis using True by simp
  next
    case False
    then have "record_message rl u t1 t2
        = (False, rl\<lparr>user_messages := (user_messages rl)(u \<mapsto> ?kept)\<rparr>)"
      by (simp add: record_message_eq k)
    moreover have "fst (can_send_message rl u t1) = False"
      using False by (simp add: can_send_message_eq k)
    ultimately show ?thesis using False by simp
  qed
qed

theorem record_message_correct_witness:
  "(\<not> int (length (filter (\<lambda>t. \<not> float_le t (float_sub 3 10)) [0 :: real])) < 1
    \<and> fst (record_message \<lparr>window_size = 10, max_messages = 1, user_messages = [''user_1'' \<mapsto> [0]]\<rparr>
             ''user_1'' 3 4) = False
    \<and> stored (snd (record_message \<lparr>window_size = 10, max_messages = 1, user_messages = [''user_1'' \<mapsto> [0]]\<rparr>
             ''user_1'' 3 4)) ''user_1'' = [0])
   \<and> (int (length (filter (\<lambda>t. \<not> float_le t (float_sub 11 10)) [0 :: real])) < 1
    \<and> fst (record_message \<lparr>window_size = 10, max_messages = 1, user_messages = [''user_1'' \<mapsto> [0]]\<rparr>
             ''user_1'' 11 12) = True
    \<and> stored (snd (record_message \<lparr>window_size = 10, max_messages = 1, user_messages = [''user_1'' \<mapsto> [0]]\<rparr>
             ''user_1'' 11 12)) ''user_1'' = [12])
   \<and> (''user_2'' \<noteq> ''user_1''
    \<and> stored (snd (record_message \<lparr>window_size = 10, max_messages = 1, user_messages = [''user_1'' \<mapsto> [0]]\<rparr>
             ''user_1'' 11 12)) ''user_2'' = [])"
proof -
  let ?rl = "\<lparr>window_size = 10, max_messages = 1, user_messages = [''user_1'' \<mapsto> [0]]\<rparr>"
  have s: "stored ?rl ''user_1'' = [0]" "stored ?rl ''user_2'' = []" by (simp_all add: stored_def)
  have f1: "float_sub 3 10 = Finite (- 7)" using float_sub_ints[of 3 10] by simp
  have f2: "float_sub 11 10 = Finite 1" using float_sub_ints[of 11 10] by simp
  have h1: "\<not> int (length (filter (\<lambda>t. \<not> float_le t (float_sub 3 10)) [0 :: real])) < 1"
    by (simp add: f1 float_le_def)
  have h2: "int (length (filter (\<lambda>t. \<not> float_le t (float_sub 11 10)) [0 :: real])) < 1"
    by (simp add: f2 float_le_def)
  have h3: "''user_2'' \<noteq> ''user_1''" by simp
  have r1: "fst (record_message ?rl ''user_1'' 3 4) = False
      \<and> stored (snd (record_message ?rl ''user_1'' 3 4)) ''user_1'' = [0]"
    using record_message_correct[where rl = ?rl and u = "''user_1''" and ?t1.0 = 3 and ?t2.0 = 4] s
    by (simp add: f1 float_le_def)
  have r2: "fst (record_message ?rl ''user_1'' 11 12) = True
      \<and> stored (snd (record_message ?rl ''user_1'' 11 12)) ''user_1'' = [12]
      \<and> stored (snd (record_message ?rl ''user_1'' 11 12)) ''user_2'' = []"
    using record_message_correct[where rl = ?rl and u = "''user_1''" and ?t1.0 = 11 and ?t2.0 = 12] s h3
    by (simp add: f2 float_le_def)
  show ?thesis using h1 h2 h3 r1 r2 by blast
qed

section \<open>The stored count never exceeds the limit\<close>

lemma limiter_step_inv:
  assumes "1 \<le> max_messages rl" and "\<forall>u. int (length (stored rl u)) \<le> max_messages rl"
  shows "\<exists>rl'. limiter_step rl x = Inr rl' \<and> max_messages rl' = max_messages rl
            \<and> window_size rl' = window_size rl
            \<and> (\<forall>u. int (length (stored rl' u)) \<le> max_messages rl')"
proof -
  have f: "int (length (kept_at rl u t)) \<le> max_messages rl" for u t
  proof -
    have "int (length (kept_at rl u t)) \<le> int (length (stored rl u))"
      by (simp add: kept_at_def)
    also have "\<dots> \<le> max_messages rl" using assms(2) by blast
    finally show ?thesis .
  qed
  show ?thesis
  proof (cases x)
    case (CanSend u t)
    then show ?thesis using assms(2) f by (simp add: can_send_message_eq)
  next
    case (Record u t1 t2)
    then show ?thesis using assms(2) f by (simp add: record_message_eq)
  next
    case (TimeUntil u t)
    have "kept_at rl u t = [] \<Longrightarrow>
        int (length (kept_at rl u t)) < max_messages rl"
      using assms(1) by simp
    then show ?thesis
      using TimeUntil assms(2) f by (auto simp: time_until_next_allowed_eq Let_def)
  next
    case (GetCount u t)
    then show ?thesis using assms(2) f by (simp add: get_message_count_eq)
  qed
qed

lemma limiter_run_inv:
  "1 \<le> max_messages rl \<Longrightarrow> \<forall>u. int (length (stored rl u)) \<le> max_messages rl \<Longrightarrow>
   \<exists>rl'. limiter_run rl xs = Inr rl' \<and> max_messages rl' = max_messages rl
       \<and> (\<forall>u. int (length (stored rl' u)) \<le> max_messages rl')"
proof (induction xs arbitrary: rl)
  case Nil
  then show ?case by simp
next
  case (Cons x xs)
  obtain rl1 where s: "limiter_step rl x = Inr rl1" "max_messages rl1 = max_messages rl"
      "\<forall>u. int (length (stored rl1 u)) \<le> max_messages rl1"
    using limiter_step_inv[OF Cons.prems] by blast
  have "1 \<le> max_messages rl1" using s(2) Cons.prems(1) by simp
  from Cons.IH[OF this s(3)] show ?case using s(1,2) by auto
qed

text \<open>
  Claim C9. On a limiter constructed with \<^verbatim>\<open>max_messages\<close> at least 1, after every call
  of any sequence of \<^verbatim>\<open>can_send_message\<close>, \<^verbatim>\<open>record_message\<close>,
  \<^verbatim>\<open>time_until_next_allowed\<close> and \<^verbatim>\<open>get_message_count\<close> calls with non-decreasing
  clock readings (every prefix of the sequence), the call has returned without an
  exception and every user has at most \<^verbatim>\<open>max_messages\<close> timestamps stored. The three
  other methods only prune: they leave a user's list filtered, never longer. And
  \<^verbatim>\<open>record_message\<close> appends only when the count after pruning is below
  \<^verbatim>\<open>max_messages\<close>.
\<close>

theorem stored_count_bounded:
  assumes "1 \<le> mm" and "SlidingWindowRateLimiter_init ws mm = Inr rl0"
    and "sorted (concat (map clock_readings calls))"
  shows "(\<forall>n \<le> length calls. \<exists>rl. limiter_run rl0 (take n calls) = Inr rl
            \<and> max_messages rl = mm
            \<and> (\<forall>u. int (length (stored rl u)) \<le> max_messages rl))
         \<and> (\<forall>rl u t u'. stored (snd (can_send_message rl u t)) u'
                = (if u' = u then filter (\<lambda>x. \<not> float_le x (float_sub t (window_size rl))) (stored rl u)
                   else stored rl u'))
         \<and> (\<forall>rl u t u'. stored (snd (get_message_count rl u t)) u'
                = (if u' = u then filter (\<lambda>x. \<not> float_le x (float_sub t (window_size rl))) (stored rl u)
                   else stored rl u'))
         \<and> (\<forall>rl u t w rl' u'. time_until_next_allowed rl u t = Inr (w, rl') \<longrightarrow>
                stored rl' u'
                = (if u' = u then filter (\<lambda>x. \<not> float_le x (float_sub t (window_size rl))) (stored rl u)
                   else stored rl u'))
         \<and> (\<forall>rl u t1 t2 u'. stored (snd (record_message rl u t1 t2)) u'
                = (if u' \<noteq> u then stored rl u'
                   else if int (length (filter (\<lambda>x. \<not> float_le x (float_sub t1 (window_size rl))) (stored rl u))) < max_messages rl
                   then filter (\<lambda>x. \<not> float_le x (float_sub t1 (window_size rl))) (stored rl u) @ [t2]
                   else filter (\<lambda>x. \<not> float_le x (float_sub t1 (window_size rl))) (stored rl u)))"
proof (intro conjI allI impI)
  have i: "1 \<le> max_messages rl0" "max_messages rl0 = mm"
      "\<forall>u. int (length (stored rl0 u)) \<le> max_messages rl0"
    using assms(1,2) by (auto simp: SlidingWindowRateLimiter_init_def stored_def)
  fix n
  show "\<exists>rl. limiter_run rl0 (take n calls) = Inr rl \<and> max_messages rl = mm
            \<and> (\<forall>u. int (length (stored rl u)) \<le> max_messages rl)"
    using limiter_run_inv[OF i(1,3), of "take n calls"] i(2) by auto
next
  fix rl u t u'
  show "stored (snd (can_send_message rl u t)) u'
                = (if u' = u then filter (\<lambda>x. \<not> float_le x (float_sub t (window_size rl))) (stored rl u)
                   else stored rl u')"
    by (simp add: can_send_message_eq kept_at_def)
  show "stored (snd (get_message_count rl u t)) u'
                = (if u' = u then filter (\<lambda>x. \<not> float_le x (float_sub t (window_size rl))) (stored rl u)
                   else stored rl u')"
    by (simp add: get_message_count_eq kept_at_def)
next
  fix rl u t w rl' u'
  assume "time_until_next_allowed rl u t = Inr (w, rl')"
  then show "stored rl' u'
                = (if u' = u then filter (\<lambda>x. \<not> float_le x (float_sub t (window_size rl))) (stored rl u)
                   else stored rl u')"
    by (auto simp: time_until_next_allowed_eq Let_def kept_at_def split: if_splits)
next
  fix rl u t1 t2 u'
  show "stored (snd (record_message rl u t1 t2)) u'
                = (if u' \<noteq> u then stored rl u'
                   else if int (length (filter (\<lambda>x. \<not> float_le x (float_sub t1 (window_size rl))) (stored rl u))) < max_messages rl
                   then filter (\<lambda>x. \<not> float_le x (float_sub t1 (window_size rl))) (stored rl u) @ [t2]
                   else filter (\<lambda>x. \<not> float_le x (float_sub t1 (window_size rl))) (stored rl u))"
    by (simp add: record_message_eq kept_at_def)
qed

theorem stored_count_bounded_witness:
  "(1::int) \<le> 1
   \<and> SlidingWindowRateLimiter_init 10 1
       = Inr \<lparr>window_size = 10, max_messages = 1, user_messages = Map.empty\<rparr>
   \<and> sorted (concat (map clock_readings
        [Record ''user_1'' 0 0, Record ''user_1'' 1 2, CanSend ''user_1'' 3,
         TimeUntil ''user_1'' 3, GetCount ''user_1'' 11, Record ''user_1'' 11 12]))
   \<and> (\<exists>rl. limiter_run \<lparr>window_size = 10, max_messages = 1, user_messages = Map.empty\<rparr>
              (take 6 [Record ''user_1'' 0 0, Record ''user_1'' 1 2, CanSend ''user_1'' 3,
                 TimeUntil ''user_1'' 3, GetCount ''user_1'' 11, Record ''user_1'' 11 12]) = Inr rl
           \<and> max_messages rl = 1
           \<and> (\<forall>u. int (length (stored rl u)) \<le> max_messages rl))"
proof -
  let ?calls = "[Record ''user_1'' 0 0, Record ''user_1'' 1 2, CanSend ''user_1'' 3,
         TimeUntil ''user_1'' 3, GetCount ''user_1'' 11, Record ''user_1'' 11 12]"
  let ?rl0 = "\<lparr>window_size = 10, max_messages = 1, user_messages = Map.empty\<rparr>"
  have a: "(1::int) \<le> 1" by simp
  have b: "SlidingWindowRateLimiter_init 10 1 = Inr ?rl0"
    by (simp add: SlidingWindowRateLimiter_init_def)
  have c: "sorted (concat (map clock_readings ?calls))" by simp
  have n: "(6::nat) \<le> length ?calls" by simp
  have "\<exists>rl. limiter_run ?rl0 (take 6 ?calls) = Inr rl \<and> max_messages rl = 1
           \<and> (\<forall>u. int (length (stored rl u)) \<le> max_messages rl)"
    using stored_count_bounded[OF a b c] n by blast
  then show ?thesis using a b c by blast
qed

section \<open>Construction\<close>

text \<open>
  Claim C2, as stated, fails: neither constructor checks its arguments. A cache of
  capacity 0 and limiters with a window of 0, with at most 0 messages, or with both
  negative are constructed like any other.
\<close>

theorem construction_counterexample:
  "LRUCache_init 0 = Inr \<lparr>capacity = 0, cache = ([] :: (int \<times> int, int option) odict)\<rparr>
   \<and> LRUCache_init (- 3) = Inr \<lparr>capacity = - 3, cache = ([] :: (int \<times> int, int option) odict)\<rparr>
   \<and> SlidingWindowRateLimiter_init 0 1
       = Inr \<lparr>window_size = 0, max_messages = 1, user_messages = Map.empty\<rparr>
   \<and> SlidingWindowRateLimiter_init 10 0
       = Inr \<lparr>window_size = 10, max_messages = 0, user_messages = Map.empty\<rparr>
   \<and> SlidingWindowRateLimiter_init (- 1) (- 1)
       = Inr \<lparr>window_size = - 1, max_messages = - 1, user_messages = Map.empty\<rparr>"
  by (simp add: LRUCache_init_def SlidingWindowRateLimiter_init_def)

text \<open>
  Claim C2, amended. Both constructors accept every argument, a capacity of 0 or less and
  a non-positive window or \<^verbatim>\<open>max_messages\<close> included, and return an instance with the
  given configuration and nothing stored. The instance is then degenerate: on the fresh
  cache of a capacity of 0 or less every \<^verbatim>\<open>put\<close> raises \<^verbatim>\<open>KeyError\<close>, and a limiter
  whose \<^verbatim>\<open>max_messages\<close> is 0 or less never permits a message.
\<close>

theorem construction_never_rejects:
  "LRUCache_init capa = Inr \<lparr>capacity = capa, cache = []\<rparr>
   \<and> SlidingWindowRateLimiter_init ws mm
       = Inr \<lparr>window_size = ws, max_messages = mm, user_messages = Map.empty\<rparr>
   \<and> (capa \<le> 0 \<longrightarrow> put \<lparr>capacity = capa, cache = []\<rparr> k v = Inl KeyError)
   \<and> (max_messages rl \<le> 0 \<longrightarrow>
        fst (can_send_message rl u now) = False \<and> fst (record_message rl u now now') = False)"
proof (intro conjI impI)
  show "LRUCache_init capa = Inr \<lparr>capacity = capa, cache = []\<rparr>"
    by (simp add: LRUCache_init_def)
  show "SlidingWindowRateLimiter_init ws mm
       = Inr \<lparr>window_size = ws, max_messages = mm, user_messages = Map.empty\<rparr>"
    by (simp add: SlidingWindowRateLimiter_init_def)
  { assume "capa \<le> 0"
    then show "put \<lparr>capacity = capa, cache = []\<rparr> k v = Inl KeyError"
      by (simp add: put_raises_iff) }
  { assume m: "max_messages rl \<le> 0"
    have "\<not> int (length (kept_at rl u now)) < max_messages rl"
      using m by linarith
    then show "fst (can_send_message rl u now) = False" "fst (record_message rl u now now') = False"
      by (simp_all add: can_send_message_eq record_message_eq) }
qed

theorem construction_never_rejects_witness:
  "(0::int) \<le> 0
   \<and> put \<lparr>capacity = 0, cache = []\<rparr> (0::int, 2::int) (Some (6::int)) = Inl KeyError
   \<and> max_messages \<lparr>window_size = 10, max_messages = 0, user_messages = Map.empty\<rparr> \<le> 0
   \<and> fst (can_send_message \<lparr>window_size = 10, max_messages = 0, user_messages = Map.empty\<rparr> ''user_1'' 5) = False
   \<and> fst (record_message \<lparr>window_size = 10, max_messages = 0, user_messages = Map.empty\<rparr> ''user_1'' 5 6) = False"
proof -
  let ?r0 = "\<lparr>window_size = 10, max_messages = 0, user_messages = Map.empty\<rparr>"
  have h1: "(0::int) \<le> 0" by simp
  have h2: "max_messages ?r0 \<le> 0" by simp
  note t0 = construction_never_rejects[where capa = 0 and ws = 10 and mm = 0
      and k = "(0::int, 2::int)" and v = "Some (6::int)"
      and rl = ?r0 and u = "''user_1''" and now = 5 and now' = 6]
  have r1: "put \<lparr>capacity = 0, cache = []\<rparr> (0::int, 2::int) (Some (6::int)) = Inl KeyError"
    using t0 h1 by blast
  have r2: "fst (can_send_message ?r0 ''user_1'' 5) = False
      \<and> fst (record_message ?r0 ''user_1'' 5 6) = False"
    using t0 h2 by blast
  show ?thesis using h1 h2 r1 r2 by blast
qed

end
